theory Spec2Isabelle
  imports Main
begin

section \<open>The board engine of \<^verbatim>\<open>2048_game.py\<close>\<close>

text \<open>
  A board is a Python list of lists of ints: \<open>int list list\<close>. Python's ints are
  unbounded, so cells are \<open>int\<close>. The functions of the source take any list of
  lists; where a read goes out of range on a ragged or empty board the source raises
  \<^verbatim>\<open>IndexError\<close>, which the model returns as \<open>Inl IndexError\<close>.
\<close>

type_synonym board = "int list list"

datatype py_error = IndexError

text \<open>
  \<^verbatim>\<open>create_board\<close>: \<^verbatim>\<open>[[0 for _ in range(size)] for _ in range(size)]\<close>.
  \<^verbatim>\<open>range(size)\<close> is empty for \<open>size \<le> 0\<close>. There is no check of the size (\<open>sz\<close> here) and
  no raise.
\<close>

definition create_board :: "int \<Rightarrow> board" where
  "create_board sz = map (\<lambda>_. map (\<lambda>_. 0) [0..<nat sz]) [0..<nat sz]"

text \<open>
  \<^verbatim>\<open>get_empty_cells\<close>: the comprehension reads \<^verbatim>\<open>board[i][j]\<close> for every
  \<open>i < len(board)\<close> and \<open>j < len(board[0])\<close>; \<^verbatim>\<open>board[0]\<close> is only evaluated when
  there is a row. A row shorter than row 0 makes \<^verbatim>\<open>board[i][j]\<close> raise IndexError.
\<close>

definition get_empty_cells :: "board \<Rightarrow> py_error + (nat \<times> nat) list" where
  "get_empty_cells board =
     (if board = [] then Inr []
      else if \<exists>row \<in> set board. length row < length (board ! 0) then Inl IndexError
      else Inr [(i, j). i \<leftarrow> [0..<length board], j \<leftarrow> [0..<length (board ! 0)],
                        board ! i ! j = 0])"

text \<open>
  The merge loop of \<^verbatim>\<open>compress\<close>:
  \<^verbatim>\<open>
    i = 0
    while i < len(new_row) - 1:
        if new_row[i] == new_row[i + 1]:
            new_row[i] *= 2
            score += new_row[i]
            new_row.pop(i + 1)
        i += 1
  \<close>
  The state is \<open>(i, new_row, score)\<close>. The fourth component is a ghost log: it records
  each value written by \<^verbatim>\<open>new_row[i] *= 2\<close>, in order, and is never read by the loop.
\<close>

function merge_loop :: "nat \<Rightarrow> int list \<Rightarrow> int \<Rightarrow> int list \<Rightarrow> int list \<times> int \<times> int list" where
  "merge_loop i new_row score created =
     (if int i < int (length new_row) - 1 then
        (if new_row ! i = new_row ! (i + 1) then
           (let v = new_row ! i * 2;
                new_row1 = new_row[i := v];
                new_row2 = take (i + 1) new_row1 @ drop (i + 2) new_row1
            in merge_loop (i + 1) new_row2 (score + v) (created @ [v]))
         else merge_loop (i + 1) new_row score created)
      else (new_row, score, created))"
  by pat_completeness auto
termination
  by (relation "measure (\<lambda>(i, new_row, score, created). length new_row - i)") auto

declare merge_loop.simps [simp del]

text \<open>
  \<^verbatim>\<open>compress\<close>: drop the zeros, run the merge loop, pad with zeros.
  \<^verbatim>\<open>[0] * k\<close> is empty for \<open>k \<le> 0\<close>, as \<open>replicate\<close> on the truncated difference is.
\<close>

definition compress_run :: "int list \<Rightarrow> int list \<times> int \<times> int list" where
  "compress_run row = merge_loop 0 (filter (\<lambda>num. num \<noteq> 0) row) 0 []"

definition compress :: "int list \<Rightarrow> int list \<times> int" where
  "compress row =
     (case compress_run row of (new_row, score, created) \<Rightarrow>
        (new_row @ replicate (length row - length new_row) 0, score))"

text \<open>The values created by the merges of one call of \<^verbatim>\<open>compress\<close> (the ghost log).\<close>

definition merged_values :: "int list \<Rightarrow> int list" where
  "merged_values row = (case compress_run row of (new_row, score, created) \<Rightarrow> created)"

text \<open>\<^verbatim>\<open>move_left\<close>: the loop over the rows, with its two accumulators.\<close>

fun move_left_loop :: "board \<Rightarrow> board \<Rightarrow> int \<Rightarrow> board \<times> int" where
  "move_left_loop [] new_board total_score = (new_board, total_score)"
| "move_left_loop (row # rows) new_board total_score =
     (case compress row of (new_row, score) \<Rightarrow>
        move_left_loop rows (new_board @ [new_row]) (total_score + score))"

definition move_left :: "board \<Rightarrow> board \<times> int" where
  "move_left board = move_left_loop board [] 0"

text \<open>
  \<^verbatim>\<open>transpose\<close>: \<^verbatim>\<open>[list(row) for row in zip(*board)]\<close>. \<^verbatim>\<open>zip\<close> stops at the
  shortest row, and \<^verbatim>\<open>zip()\<close> of no rows is empty; the j-th tuple holds the j-th
  element of every row.
\<close>

definition transpose_board :: "board \<Rightarrow> board" where
  "transpose_board board =
     (if board = [] then []
      else map (\<lambda>j. map (\<lambda>row. row ! j) board)
               [0..<fold min (map length board) (length (board ! 0))])"

definition reverse_rows :: "board \<Rightarrow> board" where
  "reverse_rows board = map rev board"

definition move_right :: "board \<Rightarrow> board \<times> int" where
  "move_right board =
     (let board1 = reverse_rows board;
          (board2, score) = move_left board1;
          board3 = reverse_rows board2
      in (board3, score))"

definition move_up :: "board \<Rightarrow> board \<times> int" where
  "move_up board =
     (let board1 = transpose_board board;
          (board2, score) = move_left board1;
          board3 = transpose_board board2
      in (board3, score))"

definition move_down :: "board \<Rightarrow> board \<times> int" where
  "move_down board =
     (let board1 = transpose_board board;
          (board2, score) = move_right board1;
          board3 = transpose_board board2
      in (board3, score))"

definition boards_equal :: "board \<Rightarrow> board \<Rightarrow> bool" where
  "boards_equal board1 board2 \<longleftrightarrow> board1 = board2"

text \<open>
  \<^verbatim>\<open>can_move\<close>. An exception of \<^verbatim>\<open>get_empty_cells\<close> propagates. The row scan
  reads only inside each row. The column scan evaluates \<^verbatim>\<open>board[0]\<close> first, which
  raises on the empty board; once \<^verbatim>\<open>get_empty_cells\<close> has returned, no row is shorter
  than row 0, so the reads \<^verbatim>\<open>board[row][col]\<close> are in range.
\<close>

definition can_move :: "board \<Rightarrow> py_error + bool" where
  "can_move board =
     (case get_empty_cells board of
        Inl e \<Rightarrow> Inl e
      | Inr cells \<Rightarrow>
          if cells \<noteq> [] then Inr True
          else if \<exists>row \<in> set board. \<exists>i \<in> set [0..<length row - 1]. row ! i = row ! (i + 1)
            then Inr True
          else if board = [] then Inl IndexError
          else if \<exists>col \<in> set [0..<length (board ! 0)]. \<exists>row \<in> set [0..<length board - 1].
                    board ! row ! col = board ! (row + 1) ! col
            then Inr True
          else Inr False)"

text \<open>\<^verbatim>\<open>has_won\<close>: \<^verbatim>\<open>any(target in row for row in board)\<close>.\<close>

definition has_won :: "board \<Rightarrow> int \<Rightarrow> bool" where
  "has_won board target \<longleftrightarrow> (\<exists>row \<in> set board. target \<in> set row)"

definition game_over :: "board \<Rightarrow> py_error + bool" where
  "game_over board = (case can_move board of Inl e \<Rightarrow> Inl e | Inr b \<Rightarrow> Inr (\<not> b))"

section \<open>Random tiles\<close>

text \<open>
  \<^verbatim>\<open>add_random_tile\<close> draws from the global generator. A draw is made explicit:
  \<open>pick\<close> selects the element that \<^verbatim>\<open>random.choice(empty_cells)\<close> returns (position
  \<open>pick mod len(empty_cells)\<close>, so that every number is a possible draw and every
  element can be drawn), and \<open>low\<close> is the truth value of \<^verbatim>\<open>random.random() < 0.9\<close>.
  The copy made by \<^verbatim>\<open>deepcopy\<close> is the value itself.
\<close>

record draw =
  pick :: nat
  low :: bool

definition add_random_tile :: "board \<Rightarrow> draw \<Rightarrow> py_error + board" where
  "add_random_tile board d =
     (case get_empty_cells board of
        Inl e \<Rightarrow> Inl e
      | Inr empty_cells \<Rightarrow>
          if empty_cells \<noteq> [] then
            (case empty_cells ! (pick d mod length empty_cells) of
               (i, j) \<Rightarrow> Inr (board[i := (board ! i)[j := (if low d then 2 else 4)]]))
          else Inr board)"

definition initialize_game :: "int \<Rightarrow> draw \<Rightarrow> draw \<Rightarrow> py_error + board" where
  "initialize_game sz d1 d2 =
     (case add_random_tile (create_board sz) d1 of
        Inl e \<Rightarrow> Inl e
      | Inr board1 \<Rightarrow> add_random_tile board1 d2)"

section \<open>The game session (\<^verbatim>\<open>class Game2048\<close>)\<close>

text \<open>
  The fields \<^verbatim>\<open>self.size\<close>, \<^verbatim>\<open>self.board\<close>, \<^verbatim>\<open>self.score\<close> and
  \<^verbatim>\<open>self.game_won\<close>. The Tk widgets are not part of the state.
\<close>

record game =
  self_size :: int
  self_board :: board
  self_score :: int
  self_game_won :: bool

text \<open>
  What one call of \<^verbatim>\<open>make_move\<close> takes from outside: the draw for the new tile, the
  answer to the \<^verbatim>\<open>messagebox.askyesno\<close> dialog (if one is shown), and the two draws
  of a restart (if one happens).
\<close>

record inputs =
  tile :: draw
  response :: bool
  restart_tiles :: "draw \<times> draw"

text \<open>
  \<^verbatim>\<open>make_move\<close>, with its call of \<^verbatim>\<open>update_ui\<close> between the new tile and the win
  check. It returns nothing; the model reports the branch it took: \<open>Rejected\<close>
  when the board did not change, \<open>Won\<close> when the "You Win!" dialog was shown, \<open>Over\<close>
  when the "Game Over" dialog was shown, \<open>Continue\<close> otherwise.
\<close>

datatype outcome = Rejected | Continue | Won | Over

text \<open>
  \<^verbatim>\<open>update_ui\<close>: for every \<open>i, j < self.size\<close> it reads \<^verbatim>\<open>self.board[i][j]\<close> and
  configures the label \<^verbatim>\<open>self.cells[i][j]\<close>. The labels are created by
  \<^verbatim>\<open>setup_ui\<close> for the same \<^verbatim>\<open>self.size\<close>, which is never reassigned, so only the
  read of the board can be out of range; it raises IndexError then. The state is not
  changed.
\<close>

definition update_ui :: "game \<Rightarrow> py_error + unit" where
  "update_ui g =
     (if \<forall>i \<in> set [0..<nat (self_size g)]. \<forall>j \<in> set [0..<nat (self_size g)].
           i < length (self_board g) \<and> j < length (self_board g ! i)
      then Inr () else Inl IndexError)"

definition restart_game :: "game \<Rightarrow> draw \<times> draw \<Rightarrow> py_error + game" where
  "restart_game g ds =
     (case initialize_game (self_size g) (fst ds) (snd ds) of
        Inl e \<Rightarrow> Inl e
      | Inr b \<Rightarrow>
          let g1 = g\<lparr>self_board := b, self_score := 0, self_game_won := False\<rparr>
          in (case update_ui g1 of Inl e \<Rightarrow> Inl e | Inr u \<Rightarrow> Inr g1))"

definition make_move ::
  "game \<Rightarrow> (board \<Rightarrow> board \<times> int) \<Rightarrow> inputs \<Rightarrow> py_error + (game \<times> outcome)" where
  "make_move g move_function inp =
     (let old_board = self_board g;
          (new_board, score_gained) = move_function (self_board g)
      in if \<not> boards_equal old_board new_board then
           (case add_random_tile new_board (tile inp) of
              Inl e \<Rightarrow> Inl e
            | Inr b \<Rightarrow>
                let g1 = g\<lparr>self_board := b, self_score := self_score g + score_gained\<rparr>
                in (case update_ui g1 of
                      Inl e \<Rightarrow> Inl e
                    | Inr u \<Rightarrow>
                        if \<not> self_game_won g1 \<and> has_won (self_board g1) 2048 then
                          (let g2 = g1\<lparr>self_game_won := True\<rparr>
                           in if \<not> response inp then
                                (case restart_game g2 (restart_tiles inp) of
                                   Inl e \<Rightarrow> Inl e
                                 | Inr g3 \<Rightarrow> Inr (g3, Won))
                              else Inr (g2, Won))
                        else
                          (case game_over (self_board g1) of
                             Inl e \<Rightarrow> Inl e
                           | Inr True \<Rightarrow>
                               if response inp then
                                 (case restart_game g1 (restart_tiles inp) of
                                    Inl e \<Rightarrow> Inl e
                                  | Inr g3 \<Rightarrow> Inr (g3, Over))
                               else Inr (g1, Over)
                           | Inr False \<Rightarrow> Inr (g1, Continue))))
         else Inr (g, Rejected))"

text \<open>
  A sequence of key presses: \<^verbatim>\<open>handle_keypress\<close> calls \<^verbatim>\<open>make_move\<close> once per key,
  each call on the state the previous one left. The outcomes are collected in order.
\<close>

fun play ::
  "game \<Rightarrow> ((board \<Rightarrow> board \<times> int) \<times> inputs) list \<Rightarrow> py_error + (game \<times> outcome list)" where
  "play g [] = Inr (g, [])"
| "play g (step # steps) =
     (case make_move g (fst step) (snd step) of
        Inl e \<Rightarrow> Inl e
      | Inr (g1, out) \<Rightarrow>
          (case play g1 steps of
             Inl e \<Rightarrow> Inl e
           | Inr (g2, outs) \<Rightarrow> Inr (g2, out # outs)))"

text \<open>A call of \<^verbatim>\<open>make_move\<close> ran \<^verbatim>\<open>restart_game\<close>: the player declined to continue
  after a win, or asked to play again after the game was over.\<close>

definition restarted :: "outcome \<Rightarrow> inputs \<Rightarrow> bool" where
  "restarted out inp \<longleftrightarrow> (out = Won \<and> \<not> response inp) \<or> (out = Over \<and> response inp)"

section \<open>Shapes\<close>

text \<open>A square board of dimension \<open>n\<close>: \<open>n\<close> rows of \<open>n\<close> cells.\<close>

definition square :: "nat \<Rightarrow> board \<Rightarrow> bool" where
  "square n board \<longleftrightarrow> length board = n \<and> (\<forall>row \<in> set board. length row = n)"

text \<open>The sum of all tile values of a board.\<close>

definition board_sum :: "board \<Rightarrow> int" where
  "board_sum board = sum_list (map sum_list board)"

section \<open>The specification's board constructor\<close>

text \<open>
  \<open>createEmptyBoard\<close> as the specification words it ("all-zero N x N grid; fails with
  InvalidSizeError if size < 2"), to be compared with \<^verbatim>\<open>create_board\<close> of the source.
  The source has no such error.
\<close>

datatype spec_error = InvalidSizeError

definition createEmptyBoard_spec :: "int \<Rightarrow> spec_error + board" where
  "createEmptyBoard_spec sz =
     (if sz < 2 then Inl InvalidSizeError
      else Inr (replicate (nat sz) (replicate (nat sz) 0)))"

section \<open>The single merge pass, described without the loop\<close>

text \<open>
  The merge rule on a compacted line, by recursion on the line itself and with no
  index or mutation: when the first two values are equal they are replaced by their
  sum and the pass goes on behind them, so the sum is never compared with anything;
  otherwise the first value is kept and the pass goes on from the second.
  \<open>merge_pairs\<close> is the resulting line, \<open>pair_values\<close> the sums created, in order.
  \<open>merge_loop\<close> is compared with them below.
\<close>

fun merge_pairs :: "int list \<Rightarrow> int list" where
  "merge_pairs (x # y # xs) =
     (if x = y then (x * 2) # merge_pairs xs else x # merge_pairs (y # xs))"
| "merge_pairs xs = xs"

fun pair_values :: "int list \<Rightarrow> int list" where
  "pair_values (x # y # xs) =
     (if x = y then (x * 2) # pair_values xs else pair_values (y # xs))"
| "pair_values xs = []"

text \<open>The non-zero values of a row, in order (the first line of \<^verbatim>\<open>compress\<close>).\<close>

abbreviation nz :: "int list \<Rightarrow> int list" where
  "nz row \<equiv> filter (\<lambda>num. num \<noteq> 0) row"

section \<open>The merge loop and the movers\<close>

lemma drop_two: "Suc i < length xs \<Longrightarrow> drop i xs = xs ! i # xs ! Suc i # drop (Suc (Suc i)) xs"
  by (simp add: Cons_nth_drop_Suc)

lemma merge_loop_eq:
  "i \<le> length xs \<Longrightarrow>
   merge_loop i xs s c =
     (take i xs @ merge_pairs (drop i xs), s + sum_list (pair_values (drop i xs)),
      c @ pair_values (drop i xs))"
proof (induction i xs s c rule: merge_loop.induct)
  case (1 i xs s c)
  show ?case
  proof (cases "Suc i < length xs")
    case True
    note d = drop_two[OF True]
    show ?thesis
    proof (cases "xs ! i = xs ! Suc i")
      case eq: True
      let ?v = "xs ! i * 2"
      let ?ys = "take i xs @ ?v # drop (Suc (Suc i)) xs"
      have len: "Suc i \<le> length ?ys" using True by simp
      have tk: "take (Suc i) ?ys = take i xs @ [?v]" using True by simp
      have dr: "drop (Suc i) ?ys = drop (Suc (Suc i)) xs" using True by simp
      have step: "merge_loop i xs s c = merge_loop (Suc i) ?ys (s + ?v) (c @ [?v])"
        using True eq by (subst merge_loop.simps) (simp add: Let_def take_Suc_conv_app_nth)
      have pop: "take (i + 1) (xs[i := xs ! i * 2]) @ drop (i + 2) (xs[i := xs ! i * 2]) = ?ys"
        using True by (simp add: take_Suc_conv_app_nth)
      have c1: "int i < int (length xs) - 1" using True by simp
      have e1: "xs ! i = xs ! (i + 1)" using eq by simp
      note IH = "1.IH"(1)[OF c1 e1 refl refl refl, unfolded pop]
      have ih: "merge_loop (Suc i) ?ys (s + ?v) (c @ [?v]) =
          (take (Suc i) ?ys @ merge_pairs (drop (Suc i) ?ys),
           (s + ?v) + sum_list (pair_values (drop (Suc i) ?ys)),
           (c @ [?v]) @ pair_values (drop (Suc i) ?ys))"
        using IH len by simp
      show ?thesis
        unfolding step ih tk dr using eq by (simp add: d)
    next
      case ne: False
      have step: "merge_loop i xs s c = merge_loop (Suc i) xs s c"
        using True ne by (subst merge_loop.simps) simp
      have ih: "merge_loop (Suc i) xs s c =
          (take (Suc i) xs @ merge_pairs (drop (Suc i) xs),
           s + sum_list (pair_values (drop (Suc i) xs)), c @ pair_values (drop (Suc i) xs))"
        using "1.IH"(2) True ne by simp
      have d': "drop (Suc i) xs = xs ! Suc i # drop (Suc (Suc i)) xs"
        using True by (simp add: Cons_nth_drop_Suc)
      show ?thesis
        unfolding step ih using ne True by (simp add: d d' take_Suc_conv_app_nth)
    qed
  next
    case False
    have stop: "merge_loop i xs s c = (xs, s, c)"
      using False by (subst merge_loop.simps) simp
    have "length (drop i xs) \<le> 1" using False "1.prems" by simp
    then have "merge_pairs (drop i xs) = drop i xs \<and> pair_values (drop i xs) = []"
      by (cases "drop i xs" rule: merge_pairs.cases) auto
    then show ?thesis unfolding stop by simp
  qed
qed

lemma compress_run_eq:
  "compress_run row = (merge_pairs (nz row), sum_list (pair_values (nz row)), pair_values (nz row))"
  by (simp add: compress_run_def merge_loop_eq)

lemma fst_compress:
  "fst (compress row) =
     merge_pairs (nz row) @ replicate (length row - length (merge_pairs (nz row))) 0"
  by (simp add: compress_def compress_run_eq)

lemma snd_compress: "snd (compress row) = sum_list (pair_values (nz row))"
  by (simp add: compress_def compress_run_eq)

lemma merged_values_eq: "merged_values row = pair_values (nz row)"
  by (simp add: merged_values_def compress_run_eq)

lemma length_merge_pairs: "length (merge_pairs xs) \<le> length xs"
  by (induction xs rule: merge_pairs.induct) auto

lemma length_merge_pairs_nz: "length (merge_pairs (nz row)) \<le> length row"
  using length_merge_pairs[of "nz row"] length_filter_le[of "\<lambda>num. num \<noteq> 0" row] by linarith

lemma length_fst_compress: "length (fst (compress row)) = length row"
  using length_merge_pairs_nz[of row] by (simp add: fst_compress)

lemma merge_pairs_nonzero: "0 \<notin> set xs \<Longrightarrow> 0 \<notin> set (merge_pairs xs)"
  by (induction xs rule: merge_pairs.induct) auto

lemma sum_list_merge_pairs: "sum_list (merge_pairs xs) = sum_list xs"
  by (induction xs rule: merge_pairs.induct) auto

lemma sum_list_nz: "sum_list (nz row) = sum_list row"
  by (induction row) auto

lemma sum_list_zeros: "sum_list (replicate k (0::int)) = 0"
  by (induction k) auto

lemma sum_list_fst_compress: "sum_list (fst (compress row)) = sum_list row"
  by (simp add: fst_compress sum_list_merge_pairs sum_list_nz sum_list_zeros)

lemma merge_pairs_fixed: "0 \<notin> set xs \<Longrightarrow> merge_pairs xs = xs \<longleftrightarrow> distinct_adj xs"
  by (induction xs rule: merge_pairs.induct) auto

lemma pair_values_doubles: "c \<in> set (pair_values xs) \<Longrightarrow> \<exists>v \<in> set xs. c = v * 2"
  by (induction xs rule: pair_values.induct) (auto split: if_splits)

lemma pair_values_nonneg: "\<forall>x \<in> set xs. 0 \<le> x \<Longrightarrow> 0 \<le> sum_list (pair_values xs)"
  by (induction xs rule: pair_values.induct) auto

lemma merge_pairs_hd: "xs \<noteq> [] \<Longrightarrow> 0 \<notin> set xs \<Longrightarrow> merge_pairs xs \<noteq> [] \<and> hd (merge_pairs xs) \<noteq> 0"
  by (induction xs rule: merge_pairs.induct) auto

lemma move_left_loop_eq:
  "move_left_loop rows nb t =
     (nb @ map (\<lambda>row. fst (compress row)) rows, t + sum_list (map (\<lambda>row. snd (compress row)) rows))"
  by (induction rows arbitrary: nb t) (auto split: prod.splits)

lemma move_left_eq:
  "move_left board =
     (map (\<lambda>row. fst (compress row)) board, sum_list (map (\<lambda>row. snd (compress row)) board))"
  by (simp add: move_left_def move_left_loop_eq)

lemma fold_min_same: "\<forall>row \<in> set b. length row = n \<Longrightarrow> fold min (map length b) n = n"
  by (induction b) auto

lemma transpose_square:
  assumes "square n b"
  shows "transpose_board b = map (\<lambda>j. map (\<lambda>row. row ! j) b) [0..<n]"
proof (cases "b = []")
  case True
  then show ?thesis using assms by (simp add: transpose_board_def square_def)
next
  case False
  have rows: "\<forall>row \<in> set b. length row = n" using assms by (simp add: square_def)
  have "b ! 0 \<in> set b" using False by simp
  then have "length (b ! 0) = n" using rows by blast
  then show ?thesis using False fold_min_same[OF rows]
    by (simp add: transpose_board_def)
qed

lemma square_transpose: "square n b \<Longrightarrow> square n (transpose_board b)"
  using transpose_square[of n b] by (auto simp: square_def)

lemma transpose_nth:
  "square n b \<Longrightarrow> i < n \<Longrightarrow> j < n \<Longrightarrow> transpose_board b ! j ! i = b ! i ! j"
  using transpose_square[of n b] by (simp add: square_def)

lemma transpose_transpose:
  assumes "square n b"
  shows "transpose_board (transpose_board b) = b"
proof (rule nth_equalityI)
  have sq: "square n (transpose_board b)" using assms by (rule square_transpose)
  show len: "length (transpose_board (transpose_board b)) = length b"
    using square_transpose[OF sq] assms by (simp add: square_def)
  fix i assume "i < length (transpose_board (transpose_board b))"
  then have i: "i < n" using square_transpose[OF sq] by (simp add: square_def)
  have l1: "length (transpose_board (transpose_board b) ! i) = n"
    using square_transpose[OF sq] i by (simp add: square_def)
  have l2: "length (b ! i) = n" using assms i by (simp add: square_def)
  show "transpose_board (transpose_board b) ! i = b ! i"
  proof (rule nth_equalityI)
    show "length (transpose_board (transpose_board b) ! i) = length (b ! i)" using l1 l2 by simp
    fix j assume "j < length (transpose_board (transpose_board b) ! i)"
    then have j: "j < n" using l1 by simp
    show "transpose_board (transpose_board b) ! i ! j = b ! i ! j"
      using transpose_nth[OF sq j i] transpose_nth[OF assms i j] by simp
  qed
qed

lemma square_map_compress: "square n b \<Longrightarrow> square n (map (\<lambda>row. fst (compress row)) b)"
  by (auto simp: square_def length_fst_compress)

lemma square_reverse_rows: "square n b \<Longrightarrow> square n (reverse_rows b)"
  by (auto simp: square_def reverse_rows_def)

lemma square_move_left: "square n b \<Longrightarrow> square n (fst (move_left b))"
  by (simp add: move_left_eq square_map_compress)

lemma square_move_right: "square n b \<Longrightarrow> square n (fst (move_right b))"
  by (simp add: move_right_def Let_def split: prod.splits)
     (metis fst_conv square_move_left square_reverse_rows)

lemma square_move_up: "square n b \<Longrightarrow> square n (fst (move_up b))"
  by (simp add: move_up_def Let_def split: prod.splits)
     (metis fst_conv square_move_left square_transpose)

lemma square_move_down: "square n b \<Longrightarrow> square n (fst (move_down b))"
  by (simp add: move_down_def Let_def split: prod.splits)
     (metis fst_conv square_move_right square_transpose)

lemma nz_id: "0 \<notin> set row \<Longrightarrow> nz row = row"
  by (induction row) auto

lemma compress_fixed_no_zero:
  assumes "0 \<notin> set row"
  shows "fst (compress row) = row \<longleftrightarrow> distinct_adj row"
proof
  assume fixed: "fst (compress row) = row"
  let ?k = "length row - length (merge_pairs row)"
  have eq: "merge_pairs row @ replicate ?k 0 = row"
    using fixed assms by (simp add: fst_compress nz_id)
  have "?k = 0"
  proof (rule ccontr)
    assume "?k \<noteq> 0"
    then have "0 \<in> set (merge_pairs row @ replicate ?k 0)" by simp
    then show False using eq assms by simp
  qed
  then have "merge_pairs row = row" using eq by simp
  then show "distinct_adj row" using assms by (simp add: merge_pairs_fixed)
next
  assume "distinct_adj row"
  then have "merge_pairs row = row" using assms by (simp add: merge_pairs_fixed)
  then show "fst (compress row) = row" using assms by (simp add: fst_compress nz_id)
qed

lemma compress_hd_nonzero:
  assumes "\<exists>x \<in> set row. x \<noteq> 0"
  shows "hd (fst (compress row)) \<noteq> 0"
proof -
  have ne: "nz row \<noteq> []" using assms by (auto simp: filter_empty_conv)
  have "0 \<notin> set (nz row)" by simp
  then have "merge_pairs (nz row) \<noteq> [] \<and> hd (merge_pairs (nz row)) \<noteq> 0"
    using ne merge_pairs_hd by blast
  then show ?thesis by (simp add: fst_compress)
qed

lemma compress_fixed_last_zero:
  assumes "0 \<in> set row" and "fst (compress row) = row"
  shows "last row = 0"
proof -
  let ?k = "length row - length (merge_pairs (nz row))"
  have "length (nz row) < length row"
    using assms(1) by (intro length_filter_less[of 0]) auto
  then have k: "0 < ?k" using length_merge_pairs[of "nz row"] by linarith
  have "row = merge_pairs (nz row) @ replicate ?k 0"
    using assms(2) by (simp add: fst_compress)
  then have "last row = last (merge_pairs (nz row) @ replicate ?k 0)" by simp
  also have "\<dots> = 0" using k by simp
  finally show ?thesis .
qed

lemma mixed_row_moves:
  assumes "0 \<in> set row" and "\<exists>x \<in> set row. x \<noteq> 0"
  shows "fst (compress row) \<noteq> row \<or> fst (compress (rev row)) \<noteq> rev row"
proof (cases "fst (compress row) = row")
  case True
  have "row \<noteq> []" using assms(1) by auto
  then have "hd (rev row) = 0"
    using compress_fixed_last_zero[OF assms(1) True] by (simp add: hd_rev)
  moreover have "hd (fst (compress (rev row))) \<noteq> 0"
    using assms(2) by (intro compress_hd_nonzero) simp
  ultimately show ?thesis by auto
next
  case False
  then show ?thesis by simp
qed

lemma map_fixed: "map f xs = xs \<longleftrightarrow> (\<forall>x \<in> set xs. f x = x)"
  by (induction xs) auto

lemma move_left_fixed:
  "fst (move_left b) = b \<longleftrightarrow> (\<forall>row \<in> set b. fst (compress row) = row)"
  by (simp add: move_left_eq map_fixed)

lemma fst_move_right:
  "fst (move_right b) = map (\<lambda>row. rev (fst (compress (rev row)))) b"
  by (simp add: move_right_def reverse_rows_def move_left_eq Let_def comp_def)

lemma move_right_fixed:
  "fst (move_right b) = b \<longleftrightarrow> (\<forall>row \<in> set b. fst (compress (rev row)) = rev row)"
  unfolding fst_move_right map_fixed by (metis rev_rev_ident)

lemma fst_move_up: "fst (move_up b) = transpose_board (fst (move_left (transpose_board b)))"
  by (simp add: move_up_def Let_def split: prod.splits)

lemma fst_move_down: "fst (move_down b) = transpose_board (fst (move_right (transpose_board b)))"
  by (simp add: move_down_def Let_def split: prod.splits)

lemma transpose_inj:
  assumes "square n x" and "square n y" and "transpose_board x = transpose_board y"
  shows "x = y"
  using assms by (metis transpose_transpose)

lemma move_up_fixed:
  assumes "square n b"
  shows "fst (move_up b) = b \<longleftrightarrow> fst (move_left (transpose_board b)) = transpose_board b"
proof
  assume "fst (move_up b) = b"
  then have "transpose_board (fst (move_left (transpose_board b))) = transpose_board (transpose_board b)"
    using assms by (simp add: fst_move_up transpose_transpose)
  then show "fst (move_left (transpose_board b)) = transpose_board b"
    using transpose_inj[OF square_move_left[OF square_transpose[OF assms]]
        square_transpose[OF assms]] by blast
next
  assume "fst (move_left (transpose_board b)) = transpose_board b"
  then show "fst (move_up b) = b" using assms by (simp add: fst_move_up transpose_transpose)
qed

lemma move_down_fixed:
  assumes "square n b"
  shows "fst (move_down b) = b \<longleftrightarrow> fst (move_right (transpose_board b)) = transpose_board b"
proof
  assume "fst (move_down b) = b"
  then have "transpose_board (fst (move_right (transpose_board b))) = transpose_board (transpose_board b)"
    using assms by (simp add: fst_move_down transpose_transpose)
  then show "fst (move_right (transpose_board b)) = transpose_board b"
    using transpose_inj[OF square_move_right[OF square_transpose[OF assms]]
        square_transpose[OF assms]] by blast
next
  assume "fst (move_right (transpose_board b)) = transpose_board b"
  then show "fst (move_down b) = b" using assms by (simp add: fst_move_down transpose_transpose)
qed

text \<open>The cells of a square board, by index.\<close>

lemma square_cell_iff:
  assumes "square n b"
  shows "(\<exists>row \<in> set b. \<exists>x \<in> set row. P x) \<longleftrightarrow> (\<exists>i < n. \<exists>j < n. P (b ! i ! j))"
proof
  assume "\<exists>row \<in> set b. \<exists>x \<in> set row. P x"
  then obtain row x where r: "row \<in> set b" and x: "x \<in> set row" and p: "P x" by blast
  from r obtain i where i: "i < length b" "b ! i = row" by (auto simp: in_set_conv_nth)
  from x obtain j where j: "j < length row" "row ! j = x" by (auto simp: in_set_conv_nth)
  have "length row = n" using assms r by (simp add: square_def)
  then show "\<exists>i < n. \<exists>j < n. P (b ! i ! j)" using i j p assms by (auto simp: square_def)
next
  assume "\<exists>i < n. \<exists>j < n. P (b ! i ! j)"
  then obtain i j where ij: "i < n" "j < n" "P (b ! i ! j)" by blast
  have r: "b ! i \<in> set b" using ij assms by (simp add: square_def)
  then have "length (b ! i) = n" using assms by (simp add: square_def)
  then have "b ! i ! j \<in> set (b ! i)" using ij by simp
  then show "\<exists>row \<in> set b. \<exists>x \<in> set row. P x" using r ij by blast
qed

lemma get_empty_cells_square:
  assumes "square n b"
  shows "get_empty_cells b =
           Inr [(i, j). i \<leftarrow> [0..<n], j \<leftarrow> [0..<n], b ! i ! j = 0]"
proof (cases "b = []")
  case True
  then show ?thesis using assms by (simp add: get_empty_cells_def square_def)
next
  case False
  have rows: "\<forall>row \<in> set b. length row = n" using assms by (simp add: square_def)
  have "b ! 0 \<in> set b" using False by simp
  then have l0: "length (b ! 0) = n" using rows by blast
  have "\<not> (\<exists>row \<in> set b. length row < length (b ! 0))" using rows l0 by simp
  then show ?thesis using False l0 assms by (simp add: get_empty_cells_def square_def)
qed

lemma empty_cells_nonempty:
  "[(i, j). i \<leftarrow> [0..<n], j \<leftarrow> [0..<m], (b::board) ! i ! j = 0] \<noteq> [] \<longleftrightarrow>
     (\<exists>i < n. \<exists>j < m. b ! i ! j = 0)"
    (is "?L \<noteq> [] \<longleftrightarrow> ?R")
proof -
  have s: "set ?L = {(i, j). i < n \<and> j < m \<and> b ! i ! j = 0}" by auto
  have "(?L \<noteq> []) = (set ?L \<noteq> {})" by (simp only: set_empty)
  also have "\<dots> = ?R" unfolding s by auto
  finally show ?thesis .
qed

lemma adjacent_equal_iff:
  "(\<exists>i \<in> set [0..<length row - 1]. row ! i = row ! (i + 1)) \<longleftrightarrow> \<not> distinct_adj row"
proof -
  have "(\<exists>i \<in> set [0..<length row - 1]. row ! i = row ! (i + 1))
        \<longleftrightarrow> (\<exists>i. Suc i < length row \<and> row ! i = row ! Suc i)"
    by (auto simp: less_diff_conv)
  then show ?thesis by (auto simp: distinct_adj_conv_nth)
qed

lemma column_adjacent_iff:
  assumes "square n b"
  shows "(\<exists>col \<in> set [0..<n]. \<exists>row \<in> set [0..<n - 1]. b ! row ! col = b ! (row + 1) ! col)
         \<longleftrightarrow> (\<exists>c \<in> set (transpose_board b). \<not> distinct_adj c)"
proof -
  have sq: "square n (transpose_board b)" using assms by (rule square_transpose)
  have len: "length (transpose_board b) = n" using sq by (simp add: square_def)
  have collen: "\<And>j. j < n \<Longrightarrow> length (transpose_board b ! j) = n"
    using sq by (simp add: square_def)
  have "(\<exists>c \<in> set (transpose_board b). \<not> distinct_adj c)
        \<longleftrightarrow> (\<exists>j < n. \<not> distinct_adj (transpose_board b ! j))"
    using len by (metis in_set_conv_nth)
  also have "\<dots> \<longleftrightarrow> (\<exists>j < n. \<exists>i. Suc i < n \<and>
                 transpose_board b ! j ! i = transpose_board b ! j ! Suc i)"
    using collen by (auto simp: distinct_adj_conv_nth)
  also have "\<dots> \<longleftrightarrow> (\<exists>j < n. \<exists>i. Suc i < n \<and> b ! i ! j = b ! Suc i ! j)"
  proof -
    have "\<And>i j. j < n \<Longrightarrow> Suc i < n \<Longrightarrow>
            (transpose_board b ! j ! i = transpose_board b ! j ! Suc i)
            = (b ! i ! j = b ! Suc i ! j)"
      using transpose_nth[OF assms] by simp
    then show ?thesis by blast
  qed
  also have "\<dots> \<longleftrightarrow> (\<exists>col \<in> set [0..<n]. \<exists>row \<in> set [0..<n - 1].
                 b ! row ! col = b ! (row + 1) ! col)"
    by (simp add: Bex_def less_diff_conv)
  finally show ?thesis by simp
qed

lemma can_move_square:
  assumes "square n b" and "b \<noteq> []"
  shows "can_move b =
           Inr ((\<exists>row \<in> set b. 0 \<in> set row)
                \<or> (\<exists>row \<in> set b. \<not> distinct_adj row)
                \<or> (\<exists>c \<in> set (transpose_board b). \<not> distinct_adj c))"
proof -
  have rows: "\<forall>row \<in> set b. length row = n" using assms by (simp add: square_def)
  have "b ! 0 \<in> set b" using assms(2) by simp
  then have l0: "length (b ! 0) = n" using rows by blast
  have lb: "length b = n" using assms by (simp add: square_def)
  have z: "(\<exists>row \<in> set b. 0 \<in> set row) \<longleftrightarrow> (\<exists>i < n. \<exists>j < n. b ! i ! j = 0)"
    using square_cell_iff[OF assms(1), of "\<lambda>x. x = 0"] by auto
  have c2: "(\<exists>row \<in> set b. \<exists>i \<in> set [0..<length row - 1]. row ! i = row ! (i + 1))
            = (\<exists>row \<in> set b. \<not> distinct_adj row)"
    by (simp only: adjacent_equal_iff)
  show ?thesis
    unfolding can_move_def get_empty_cells_square[OF assms(1)] sum.case empty_cells_nonempty
      c2 l0 lb column_adjacent_iff[OF assms(1)] z
    using assms(2) by auto
qed

lemma transpose_cells:
  assumes "square n b" and "c \<in> set (transpose_board b)" and "x \<in> set c"
  shows "\<exists>row \<in> set b. x \<in> set row"
proof -
  have "\<exists>c \<in> set (transpose_board b). \<exists>y \<in> set c. y = x" using assms by blast
  then have "\<exists>j < n. \<exists>i < n. transpose_board b ! j ! i = x"
    using square_cell_iff[OF square_transpose[OF assms(1)], of "\<lambda>y. y = x"] by simp
  then obtain i j where ij: "i < n" "j < n" "transpose_board b ! j ! i = x" by blast
  then have "b ! i ! j = x" using transpose_nth[OF assms(1)] by simp
  then have "\<exists>i < n. \<exists>j < n. b ! i ! j = x" using ij by blast
  then show ?thesis using square_cell_iff[OF assms(1), of "\<lambda>y. y = x"] by simp
qed

lemma blocked_board_fixed:
  assumes sq: "square n b"
    and nozero: "\<not> (\<exists>row \<in> set b. 0 \<in> set row)"
    and norow: "\<not> (\<exists>row \<in> set b. \<not> distinct_adj row)"
    and nocol: "\<not> (\<exists>c \<in> set (transpose_board b). \<not> distinct_adj c)"
  shows "fst (move_up b) = b \<and> fst (move_down b) = b
         \<and> fst (move_left b) = b \<and> fst (move_right b) = b"
proof -
  have rowfix: "\<And>row. row \<in> set b \<Longrightarrow> fst (compress row) = row \<and> fst (compress (rev row)) = rev row"
  proof -
    fix row assume r: "row \<in> set b"
    have z: "0 \<notin> set row" using nozero r by blast
    have d: "distinct_adj row" using norow r by blast
    have z': "0 \<notin> set (rev row)" using z by simp
    show "fst (compress row) = row \<and> fst (compress (rev row)) = rev row"
      using compress_fixed_no_zero[OF z] compress_fixed_no_zero[OF z'] d by simp
  qed
  have colfix: "\<And>c. c \<in> set (transpose_board b) \<Longrightarrow>
                  fst (compress c) = c \<and> fst (compress (rev c)) = rev c"
  proof -
    fix c assume c: "c \<in> set (transpose_board b)"
    have z: "0 \<notin> set c" using transpose_cells[OF sq c] nozero by blast
    have d: "distinct_adj c" using nocol c by blast
    have z': "0 \<notin> set (rev c)" using z by simp
    show "fst (compress c) = c \<and> fst (compress (rev c)) = rev c"
      using compress_fixed_no_zero[OF z] compress_fixed_no_zero[OF z'] d by simp
  qed
  show ?thesis
    using rowfix colfix
    by (simp add: move_left_fixed move_right_fixed move_up_fixed[OF sq] move_down_fixed[OF sq])
qed

lemma zero_and_tile_moves:
  assumes sq: "square n b"
    and zero: "\<exists>row \<in> set b. 0 \<in> set row"
    and tile: "\<exists>row \<in> set b. \<exists>x \<in> set row. x \<noteq> 0"
  shows "fst (move_up b) \<noteq> b \<or> fst (move_down b) \<noteq> b
         \<or> fst (move_left b) \<noteq> b \<or> fst (move_right b) \<noteq> b"
proof -
  have lb: "length b = n" and rows: "\<forall>row \<in> set b. length row = n"
    using sq by (simp_all add: square_def)
  from zero have "\<exists>row \<in> set b. \<exists>x \<in> set row. x = 0" by blast
  then obtain i j where ij: "i < n" "j < n" "b ! i ! j = 0"
    using square_cell_iff[OF sq, of "\<lambda>x. x = 0"] by auto
  from tile obtain i' j' where ij': "i' < n" "j' < n" "b ! i' ! j' \<noteq> 0"
    using square_cell_iff[OF sq, of "\<lambda>x. x \<noteq> 0"] by auto
  have ri: "b ! i \<in> set b" using ij lb by simp
  then have li: "length (b ! i) = n" using rows by blast
  show ?thesis
  proof (cases "b ! i ! j' = 0")
    case False
    have "0 \<in> set (b ! i)" using ij li by (metis nth_mem)
    moreover have "\<exists>x \<in> set (b ! i). x \<noteq> 0" using False ij' li by (metis nth_mem)
    ultimately have "fst (compress (b ! i)) \<noteq> b ! i \<or> fst (compress (rev (b ! i))) \<noteq> rev (b ! i)"
      by (rule mixed_row_moves)
    then show ?thesis using ri by (auto simp: move_left_fixed move_right_fixed)
  next
    case True
    let ?t = "transpose_board b"
    have sqt: "square n ?t" using sq by (rule square_transpose)
    have cj: "?t ! j' \<in> set ?t" using sqt ij' by (simp add: square_def)
    then have lc: "length (?t ! j') = n" using sqt by (simp add: square_def)
    have "?t ! j' ! i = 0" using transpose_nth[OF sq ij(1) ij'(2)] True by simp
    then have "0 \<in> set (?t ! j')" using lc ij(1) by (metis nth_mem)
    moreover have "?t ! j' ! i' \<noteq> 0" using transpose_nth[OF sq ij'(1) ij'(2)] ij'(3) by simp
    then have "\<exists>x \<in> set (?t ! j'). x \<noteq> 0" using lc ij'(1) by (metis nth_mem)
    ultimately have "fst (compress (?t ! j')) \<noteq> ?t ! j' \<or> fst (compress (rev (?t ! j'))) \<noteq> rev (?t ! j')"
      by (rule mixed_row_moves)
    then have "fst (move_left ?t) \<noteq> ?t \<or> fst (move_right ?t) \<noteq> ?t"
      using cj by (auto simp: move_left_fixed move_right_fixed)
    then show ?thesis using move_up_fixed[OF sq] move_down_fixed[OF sq] by blast
  qed
qed

lemma some_move_changes_iff:
  assumes sq: "square n b"
    and tile: "\<exists>row \<in> set b. \<exists>x \<in> set row. x \<noteq> 0"
  shows "(fst (move_up b) \<noteq> b \<or> fst (move_down b) \<noteq> b
          \<or> fst (move_left b) \<noteq> b \<or> fst (move_right b) \<noteq> b)
         \<longleftrightarrow> ((\<exists>row \<in> set b. 0 \<in> set row)
                \<or> (\<exists>row \<in> set b. \<not> distinct_adj row)
                \<or> (\<exists>c \<in> set (transpose_board b). \<not> distinct_adj c))"
    (is "?moves \<longleftrightarrow> ?Z \<or> ?H \<or> ?V")
proof
  assume ?moves
  then show "?Z \<or> ?H \<or> ?V" using blocked_board_fixed[OF sq] by blast
next
  assume a: "?Z \<or> ?H \<or> ?V"
  show ?moves
  proof (cases ?Z)
    case True
    then show ?thesis using zero_and_tile_moves[OF sq _ tile] by blast
  next
    case nz: False
    show ?thesis
    proof (cases ?H)
      case True
      then obtain row where r: "row \<in> set b" "\<not> distinct_adj row" by blast
      have "0 \<notin> set row" using nz r by blast
      then have "fst (compress row) \<noteq> row" using compress_fixed_no_zero r by blast
      then have "fst (move_left b) \<noteq> b" using r by (auto simp: move_left_fixed)
      then show ?thesis by simp
    next
      case False
      then have ?V using a nz by blast
      then obtain c where c: "c \<in> set (transpose_board b)" "\<not> distinct_adj c" by blast
      have "0 \<notin> set c" using transpose_cells[OF sq c(1)] nz by blast
      then have "fst (compress c) \<noteq> c" using compress_fixed_no_zero c by blast
      then have "fst (move_left (transpose_board b)) \<noteq> transpose_board b"
        using c by (auto simp: move_left_fixed)
      then show ?thesis by (simp add: move_up_fixed[OF sq])
    qed
  qed
qed

text \<open>
  Claim C1, as amended. For every square board with at least one non-zero cell,
  \<^verbatim>\<open>can_move\<close> returns (without raising) exactly the truth value of "at least one of
  \<^verbatim>\<open>move_up\<close>, \<^verbatim>\<open>move_down\<close>, \<^verbatim>\<open>move_left\<close>, \<^verbatim>\<open>move_right\<close> returns a board
  different from its input".
\<close>

theorem can_move_iff_some_move_changes:
  assumes "square n board"
    and "\<exists>row \<in> set board. \<exists>x \<in> set row. x \<noteq> 0"
  shows "can_move board =
           Inr (fst (move_up board) \<noteq> board \<or> fst (move_down board) \<noteq> board
                \<or> fst (move_left board) \<noteq> board \<or> fst (move_right board) \<noteq> board)"
proof -
  have "board \<noteq> []" using assms(2) by auto
  then show ?thesis
    using can_move_square[OF assms(1)] some_move_changes_iff[OF assms] by simp
qed

lemma compress_leading_pair:
  assumes "x \<noteq> 0"
  shows "compress (x # x # rest) = (x * 2 # fst (compress rest) @ [0], x * 2 + snd (compress rest))"
proof -
  let ?m = "merge_pairs (nz rest)"
  have le: "length ?m \<le> length rest" by (rule length_merge_pairs_nz)
  have pad: "Suc (length rest) - length ?m = Suc (length rest - length ?m)"
    using le by simp
  have "fst (compress (x # x # rest)) = x * 2 # fst (compress rest) @ [0]"
    using assms by (simp add: fst_compress pad replicate_append_same)
  moreover have "snd (compress (x # x # rest)) = x * 2 + snd (compress rest)"
    using assms by (simp add: snd_compress)
  ultimately show ?thesis by (simp add: prod_eq_iff)
qed

section \<open>Scenarios and the single pass of \<^verbatim>\<open>compress\<close>\<close>

text \<open>
  Claim C2. \<^verbatim>\<open>compress\<close> makes one left-to-right merge pass and never merges a value
  it has just created. For every line, the result is the single pass \<open>merge_pairs\<close> over
  the non-zero values, padded with zeros to the length of the line, and the score is
  the sum of the values that pass creates. When a line starts with two equal non-zero
  values \<open>x\<close>, the result starts with \<open>2x\<close> followed by the result for the rest of the
  line alone, so \<open>2x\<close> meets no third tile. The scenarios: \<open>[2,2,0,0]\<close> gives
  \<open>([4,0,0,0], 4)\<close>; \<open>[2,2,2,0]\<close> gives \<open>([4,2,0,0], 4)\<close> and not a row \<open>[4,4,0,0]\<close>;
  \<open>[0,2,0,4]\<close> gives \<open>([2,4,0,0], 0)\<close>; and \<open>[2,2,4,0]\<close> gives \<open>([4,4,0,0], 4)\<close>, not
  \<open>[8,0,0,0]\<close>.
\<close>

theorem compress_single_pass:
  "compress row =
     (merge_pairs (filter (\<lambda>num. num \<noteq> 0) row)
        @ replicate (length row - length (merge_pairs (filter (\<lambda>num. num \<noteq> 0) row))) 0,
      sum_list (pair_values (filter (\<lambda>num. num \<noteq> 0) row)))
   \<and> (x \<noteq> 0 \<longrightarrow>
        compress (x # x # rest) =
          (x * 2 # fst (compress rest) @ [0], x * 2 + snd (compress rest)))
   \<and> compress [2, 2, 0, 0] = ([4, 0, 0, 0], 4)
   \<and> compress [2, 2, 2, 0] = ([4, 2, 0, 0], 4)
   \<and> fst (compress [2, 2, 2, 0]) \<noteq> [4, 4, 0, 0]
   \<and> compress [0, 2, 0, 4] = ([2, 4, 0, 0], 0)
   \<and> compress [2, 2, 4, 0] = ([4, 4, 0, 0], 4)"
proof (intro conjI impI)
  show "compress row =
     (merge_pairs (nz row) @ replicate (length row - length (merge_pairs (nz row))) 0,
      sum_list (pair_values (nz row)))"
    by (simp add: prod_eq_iff fst_compress snd_compress)
  show "compress (x # x # rest) =
          (x * 2 # fst (compress rest) @ [0], x * 2 + snd (compress rest))" if "x \<noteq> 0"
    using that by (rule compress_leading_pair)
  show "compress [2, 2, 0, 0] = ([4, 0, 0, 0], 4)"
    by (simp add: compress_def compress_run_def merge_loop.simps)
  show "compress [2, 2, 2, 0] = ([4, 2, 0, 0], 4)"
    by (simp add: compress_def compress_run_def merge_loop.simps)
  show "fst (compress [2, 2, 2, 0]) \<noteq> [4, 4, 0, 0]"
    by (simp add: compress_def compress_run_def merge_loop.simps)
  show "compress [0, 2, 0, 4] = ([2, 4, 0, 0], 0)"
    by (simp add: compress_def compress_run_def merge_loop.simps)
  show "compress [2, 2, 4, 0] = ([4, 4, 0, 0], 4)"
    by (simp add: compress_def compress_run_def merge_loop.simps)
qed

theorem compress_single_pass_witness:
  "(2::int) \<noteq> 0
   \<and> compress [4, 0] = ([4, 0], 0)
   \<and> compress [2, 2, 4, 0] = (2 * 2 # fst (compress [4, 0]) @ [0], 2 * 2 + snd (compress [4, 0]))"
proof -
  have h: "(2::int) \<noteq> 0" by simp
  have c: "compress [4, 0] = ([4, 0], 0)"
    by (simp add: compress_def compress_run_def merge_loop.simps)
  show ?thesis
    using h c compress_single_pass[of "[2, 2, 4, 0]" 2 "[4, 0]"] by simp
qed

section \<open>Properties of every line\<close>

lemma zeros_last_append:
  assumes "0 \<notin> set tiles" and "i < length (tiles @ replicate k (0::int))"
    and "j < length (tiles @ replicate k 0)"
    and "(tiles @ replicate k 0) ! i = 0" and "(tiles @ replicate k 0) ! j \<noteq> 0"
  shows "j < i"
proof -
  have "\<not> i < length tiles"
  proof
    assume "i < length tiles"
    then have "tiles ! i \<in> set tiles" and "(tiles @ replicate k 0) ! i = tiles ! i"
      by (simp_all add: nth_append)
    then show False using assms(1,4) by simp
  qed
  moreover have "j < length tiles"
  proof (rule ccontr)
    assume "\<not> j < length tiles"
    then have "(tiles @ replicate k 0) ! j = 0" using assms(3) by (simp add: nth_append)
    then show False using assms(5) by simp
  qed
  ultimately show ?thesis by simp
qed

lemma compress_zeros_last:
  assumes "i < length row" and "j < length row"
    and "fst (compress row) ! i = 0" and "fst (compress row) ! j \<noteq> 0"
  shows "j < i"
proof -
  let ?tiles = "merge_pairs (nz row)"
  let ?k = "length row - length ?tiles"
  have nzt: "0 \<notin> set ?tiles" by (rule merge_pairs_nonzero) simp
  have len: "length (?tiles @ replicate ?k 0) = length row"
    using length_merge_pairs_nz[of row] by simp
  show ?thesis
    using zeros_last_append[OF nzt, of i ?k j] assms len by (simp add: fst_compress)
qed

lemma merged_values_doubles:
  assumes "c \<in> set (merged_values row)"
  shows "\<exists>v \<in> set row. v \<noteq> 0 \<and> c = 2 * v"
proof -
  have "c \<in> set (pair_values (nz row))" using assms by (simp add: merged_values_eq)
  then obtain v where "v \<in> set (nz row)" "c = v * 2"
    using pair_values_doubles[of c "nz row"] by blast
  then show ?thesis by auto
qed

lemma compress_score_nonneg:
  assumes "\<forall>x \<in> set row. 0 \<le> x"
  shows "0 \<le> snd (compress row)"
  unfolding snd_compress using assms by (intro pair_values_nonneg) simp

text \<open>
  Claim C3. For every line, the line returned by \<^verbatim>\<open>compress\<close> has the length of the
  input; every non-zero value in it stands before every zero; the score is the sum of
  the values created by the merges of the single pass over the non-zero values (each
  merge of two equal adjacent values \<open>v\<close> gives \<open>2v\<close>), and these are exactly the values
  the loop writes; and for a line of non-negative values (the cells of a board) the
  score is non-negative.
\<close>

theorem compress_line_properties:
  "length (fst (compress row)) = length row
   \<and> (\<forall>i < length row. \<forall>j < length row.
         fst (compress row) ! i = 0 \<and> fst (compress row) ! j \<noteq> 0 \<longrightarrow> j < i)
   \<and> snd (compress row) = sum_list (pair_values (filter (\<lambda>num. num \<noteq> 0) row))
   \<and> merged_values row = pair_values (filter (\<lambda>num. num \<noteq> 0) row)
   \<and> (\<forall>c \<in> set (merged_values row). \<exists>v \<in> set row. v \<noteq> 0 \<and> c = 2 * v)
   \<and> ((\<forall>x \<in> set row. 0 \<le> x) \<longrightarrow> 0 \<le> snd (compress row))"
proof (intro conjI)
  show "length (fst (compress row)) = length row" by (rule length_fst_compress)
  show "\<forall>i < length row. \<forall>j < length row.
          fst (compress row) ! i = 0 \<and> fst (compress row) ! j \<noteq> 0 \<longrightarrow> j < i"
    using compress_zeros_last by blast
  show "snd (compress row) = sum_list (pair_values (nz row))"
    by (rule snd_compress)
  show "merged_values row = pair_values (nz row)"
    by (rule merged_values_eq)
  show "\<forall>c \<in> set (merged_values row). \<exists>v \<in> set row. v \<noteq> 0 \<and> c = 2 * v"
    using merged_values_doubles by blast
  show "(\<forall>x \<in> set row. 0 \<le> x) \<longrightarrow> 0 \<le> snd (compress row)"
    using compress_score_nonneg by blast
qed

theorem compress_line_properties_witness:
  "compress [2, 2, 0, 4, 4] = ([4, 8, 0, 0, 0], 12)
   \<and> pair_values [2, 2, 4, 4] = [4, 8]
   \<and> merged_values [2, 2, 0, 4, 4] = [4, 8]
   \<and> compress [2, 4] = ([2, 4], 0)
   \<and> length (fst (compress [2, 2, 0, 4, 4])) = length [2, 2, 0, 4, 4 :: int]
   \<and> snd (compress [2, 2, 0, 4, 4]) = sum_list (pair_values [2, 2, 4, 4])
   \<and> 0 \<le> snd (compress [2, 2, 0, 4, 4])"
proof -
  have h: "\<forall>x \<in> set [2, 2, 0, 4, 4 :: int]. 0 \<le> x" by simp
  have c: "compress [2, 2, 0, 4, 4] = ([4, 8, 0, 0, 0], 12)"
    by (simp add: compress_def compress_run_def merge_loop.simps)
  have c2: "compress [2, 4] = ([2, 4], 0)"
    by (simp add: compress_def compress_run_def merge_loop.simps)
  have m: "merged_values [2, 2, 0, 4, 4] = [4, 8]"
    by (simp add: merged_values_def compress_run_def merge_loop.simps)
  have p: "pair_values [2, 2, 4, 4] = [4, 8]" by simp
  show ?thesis
    using h c c2 m p compress_line_properties[of "[2, 2, 0, 4, 4]"] by simp
qed

subsection \<open>Sums of tile values\<close>

lemma board_sum_map_compress: "board_sum (map (\<lambda>row. fst (compress row)) b) = board_sum b"
  by (simp add: board_sum_def comp_def sum_list_fst_compress)

lemma board_sum_move_left: "board_sum (fst (move_left b)) = board_sum b"
  by (simp add: move_left_eq board_sum_map_compress)

lemma board_sum_reverse_rows: "board_sum (reverse_rows b) = board_sum b"
  by (simp add: board_sum_def reverse_rows_def comp_def)

lemma board_sum_move_right: "board_sum (fst (move_right b)) = board_sum b"
proof -
  have "fst (move_right b) = reverse_rows (fst (move_left (reverse_rows b)))"
    by (simp add: move_right_def Let_def split: prod.splits)
  then show ?thesis
    by (simp add: board_sum_reverse_rows board_sum_move_left)
qed

lemma sum_columns:
  "\<forall>row \<in> set b. length row = n \<Longrightarrow>
   sum_list (map (\<lambda>j. sum_list (map (\<lambda>row. row ! j) b)) [0..<n]) = sum_list (map sum_list (b::board))"
proof (induction b)
  case Nil
  then show ?case by (simp add: sum_list_zeros map_replicate_const)
next
  case (Cons r b)
  have lr: "length r = n" using Cons.prems by simp
  have "sum_list (map (\<lambda>j. sum_list (map (\<lambda>row. row ! j) (r # b))) [0..<n])
        = sum_list (map (\<lambda>j. r ! j + sum_list (map (\<lambda>row. row ! j) b)) [0..<n])"
    by simp
  also have "\<dots> = sum_list (map (\<lambda>j. r ! j) [0..<n])
                   + sum_list (map (\<lambda>j. sum_list (map (\<lambda>row. row ! j) b)) [0..<n])"
    by (rule sum_list_addf)
  also have "map (\<lambda>j. r ! j) [0..<n] = r" using lr map_nth[of r] by simp
  also have "sum_list (map (\<lambda>j. sum_list (map (\<lambda>row. row ! j) b)) [0..<n]) = sum_list (map sum_list b)"
    using Cons by simp
  finally show ?case by simp
qed

lemma board_sum_transpose:
  assumes "square n b"
  shows "board_sum (transpose_board b) = board_sum b"
proof -
  have rows: "\<forall>row \<in> set b. length row = n" using assms by (simp add: square_def)
  show ?thesis
    unfolding board_sum_def transpose_square[OF assms]
    using sum_columns[OF rows] by (simp add: comp_def)
qed

lemma board_sum_move_up:
  assumes "square n b"
  shows "board_sum (fst (move_up b)) = board_sum b"
  unfolding fst_move_up
  using board_sum_transpose[OF square_move_left[OF square_transpose[OF assms]]]
    board_sum_transpose[OF assms]
  by (simp add: board_sum_move_left)

lemma board_sum_move_down:
  assumes "square n b"
  shows "board_sum (fst (move_down b)) = board_sum b"
  unfolding fst_move_down
  using board_sum_transpose[OF square_move_right[OF square_transpose[OF assms]]]
    board_sum_transpose[OF assms]
  by (simp add: board_sum_move_right)

text \<open>
  Claim C4. For every square board and each of the four movers, the sum of all tile
  values of the returned board equals the sum of all tile values of the input board.
\<close>

theorem move_preserves_sum:
  assumes "square n board"
  shows "board_sum (fst (move_left board)) = board_sum board
         \<and> board_sum (fst (move_right board)) = board_sum board
         \<and> board_sum (fst (move_up board)) = board_sum board
         \<and> board_sum (fst (move_down board)) = board_sum board"
  using assms
  by (simp add: board_sum_move_left board_sum_move_right board_sum_move_up board_sum_move_down)

lemma square_example: "square 2 [[2, 2], [4, 0]]"
  by (simp add: square_def)

theorem move_preserves_sum_witness:
  "square 2 [[2, 2], [4, 0]]
   \<and> board_sum [[2, 2], [4, 0]] = 8
   \<and> board_sum (fst (move_left [[2, 2], [4, 0]])) = 8
   \<and> board_sum (fst (move_right [[2, 2], [4, 0]])) = 8
   \<and> board_sum (fst (move_up [[2, 2], [4, 0]])) = 8
   \<and> board_sum (fst (move_down [[2, 2], [4, 0]])) = 8"
proof -
  have s: "board_sum [[2, 2], [4, 0]] = 8" by (simp add: board_sum_def)
  show ?thesis
    using square_example s move_preserves_sum[OF square_example] by simp
qed

lemma transpose_column:
  assumes "square n B" and "j < n"
  shows "transpose_board B ! j = map (\<lambda>row. row ! j) B"
  using assms(2) by (simp add: transpose_square[OF assms(1)])

lemma move_up_cell:
  assumes sq: "square n B" and i: "i < n" and j: "j < n"
  shows "fst (move_up B) ! i ! j = fst (compress (map (\<lambda>row. row ! j) B)) ! i"
proof -
  let ?T = "transpose_board B"
  let ?X = "map (\<lambda>row. fst (compress row)) ?T"
  have sqT: "square n ?T" using sq by (rule square_transpose)
  have sqX: "square n ?X" using sqT by (rule square_map_compress)
  have lT: "length ?T = n" using sqT by (simp add: square_def)
  have "fst (move_up B) = transpose_board ?X" by (simp add: fst_move_up move_left_eq)
  then have "fst (move_up B) ! i ! j = ?X ! j ! i" using transpose_nth[OF sqX j i] by simp
  also have "?X ! j = fst (compress (?T ! j))" using lT j by simp
  finally show ?thesis by (simp add: transpose_column[OF sq j])
qed

lemma move_down_cell:
  assumes sq: "square n B" and i: "i < n" and j: "j < n"
  shows "fst (move_down B) ! i ! j = rev (fst (compress (rev (map (\<lambda>row. row ! j) B)))) ! i"
proof -
  let ?T = "transpose_board B"
  let ?X = "map (\<lambda>row. rev (fst (compress (rev row)))) ?T"
  have sqT: "square n ?T" using sq by (rule square_transpose)
  have sqX: "square n ?X" using square_move_right[OF sqT] by (simp add: fst_move_right)
  have lT: "length ?T = n" using sqT by (simp add: square_def)
  have "fst (move_down B) = transpose_board ?X" by (simp add: fst_move_down fst_move_right)
  then have "fst (move_down B) ! i ! j = ?X ! j ! i" using transpose_nth[OF sqX j i] by simp
  also have "?X ! j = rev (fst (compress (rev (?T ! j))))" using lT j by simp
  finally show ?thesis by (simp add: transpose_column[OF sq j])
qed

text \<open>
  Claim C5. \<^verbatim>\<open>move_right\<close> is: reverse each row (\<open>map rev\<close>), \<^verbatim>\<open>move_left\<close>, reverse
  each row, with the score of that \<^verbatim>\<open>move_left\<close>; \<^verbatim>\<open>move_up\<close> is transpose,
  \<^verbatim>\<open>move_left\<close>, transpose; \<^verbatim>\<open>move_down\<close> is transpose, \<^verbatim>\<open>move_right\<close>, transpose;
  each with the score of the inner move. On a square board the transpose is the square
  board with rows and columns swapped, cell \<open>(j, i)\<close> holding cell \<open>(i, j)\<close> of the
  input; so column \<open>j\<close> of the result of \<^verbatim>\<open>move_up\<close> is the compressed column \<open>j\<close> of
  the input, and column \<open>j\<close> of the result of \<^verbatim>\<open>move_down\<close> is the reversed
  compression of the reversed column \<open>j\<close>.
\<close>

theorem orientation_symmetry:
  "move_right B = (map rev (fst (move_left (map rev B))), snd (move_left (map rev B)))
   \<and> reverse_rows B = map rev B
   \<and> move_up B = (transpose_board (fst (move_left (transpose_board B))),
                  snd (move_left (transpose_board B)))
   \<and> move_down B = (transpose_board (fst (move_right (transpose_board B))),
                    snd (move_right (transpose_board B)))
   \<and> (square n B \<longrightarrow>
        square n (transpose_board B)
        \<and> (\<forall>i < n. \<forall>j < n. transpose_board B ! j ! i = B ! i ! j)
        \<and> (\<forall>i < n. \<forall>j < n.
              fst (move_up B) ! i ! j = fst (compress (map (\<lambda>row. row ! j) B)) ! i)
        \<and> (\<forall>i < n. \<forall>j < n.
              fst (move_down B) ! i ! j
                = rev (fst (compress (rev (map (\<lambda>row. row ! j) B)))) ! i))"
proof (intro conjI impI)
  show "move_right B = (map rev (fst (move_left (map rev B))), snd (move_left (map rev B)))"
    by (simp add: move_right_def reverse_rows_def Let_def split: prod.splits)
  show "reverse_rows B = map rev B" by (simp add: reverse_rows_def)
  show "move_up B = (transpose_board (fst (move_left (transpose_board B))),
                  snd (move_left (transpose_board B)))"
    by (simp add: move_up_def Let_def split: prod.splits)
  show "move_down B = (transpose_board (fst (move_right (transpose_board B))),
                    snd (move_right (transpose_board B)))"
    by (simp add: move_down_def Let_def split: prod.splits)
next
  assume sq: "square n B"
  show "square n (transpose_board B)" using sq by (rule square_transpose)
  show "\<forall>i < n. \<forall>j < n. transpose_board B ! j ! i = B ! i ! j"
    using transpose_nth[OF sq] by blast
  show "\<forall>i < n. \<forall>j < n.
          fst (move_up B) ! i ! j = fst (compress (map (\<lambda>row. row ! j) B)) ! i"
    using move_up_cell[OF sq] by blast
  show "\<forall>i < n. \<forall>j < n.
          fst (move_down B) ! i ! j
            = rev (fst (compress (rev (map (\<lambda>row. row ! j) B)))) ! i"
    using move_down_cell[OF sq] by blast
qed

lemma transpose_example: "transpose_board [[2, 0], [2, 4]] = [[2, 2], [0, 4]]"
  by (simp add: transpose_board_def upt_rec)

lemma move_left_example: "move_left [[2, 2], [0, 4]] = ([[4, 0], [4, 0]], 4)"
  by (simp add: move_left_def compress_def compress_run_def merge_loop.simps)

lemma move_right_example_1: "move_right [[2, 0], [2, 4]] = ([[0, 2], [2, 4]], 0)"
  by (simp add: move_right_def reverse_rows_def move_left_def compress_def compress_run_def
      merge_loop.simps)

lemma move_right_example_2: "move_right [[2, 2], [0, 4]] = ([[0, 4], [0, 4]], 4)"
  by (simp add: move_right_def reverse_rows_def move_left_def compress_def compress_run_def
      merge_loop.simps)

lemma transpose_example_2: "transpose_board [[4, 0], [4, 0]] = [[4, 4], [0, 0]]"
  by (simp add: transpose_board_def upt_rec)

lemma transpose_example_3: "transpose_board [[0, 4], [0, 4]] = [[0, 0], [4, 4]]"
  by (simp add: transpose_board_def upt_rec)

theorem orientation_symmetry_witness:
  "square 2 [[2, 0], [2, 4]]
   \<and> transpose_board [[2, 0], [2, 4]] = [[2, 2], [0, 4]]
   \<and> move_right [[2, 0], [2, 4]] = ([[0, 2], [2, 4]], 0)
   \<and> move_up [[2, 0], [2, 4]] = ([[4, 4], [0, 0]], 4)
   \<and> move_down [[2, 0], [2, 4]] = ([[0, 0], [4, 4]], 4)
   \<and> transpose_board [[2, 0], [2, 4]] ! 1 ! 0 = [[2, 0], [2, 4]] ! 0 ! 1
   \<and> fst (move_up [[2, 0], [2, 4]]) ! 0 ! 1
       = fst (compress (map (\<lambda>row. row ! 1) [[2, 0], [2, 4]])) ! 0"
proof -
  have h: "square 2 [[2, 0], [2, 4]]" by (simp add: square_def)
  have up: "move_up [[2, 0], [2, 4]] = ([[4, 4], [0, 0]], 4)"
    by (simp add: move_up_def transpose_example move_left_example transpose_example_2)
  have down: "move_down [[2, 0], [2, 4]] = ([[0, 0], [4, 4]], 4)"
    by (simp add: move_down_def transpose_example move_right_example_2 transpose_example_3)
  have all: "(\<forall>i < 2. \<forall>j < 2.
                 transpose_board [[2, 0], [2, 4]] ! j ! i = [[2, 0], [2, 4]] ! i ! j)
     \<and> (\<forall>i < 2. \<forall>j < 2. fst (move_up [[2, 0], [2, 4]]) ! i ! j
            = fst (compress (map (\<lambda>row. row ! j) [[2, 0], [2, 4]])) ! i)"
    using h orientation_symmetry[of "[[2, 0], [2, 4]]" 2] by blast
  have lt: "(0::nat) < 2" "(1::nat) < 2" by simp_all
  have cells: "transpose_board [[2, 0], [2, 4]] ! 1 ! 0 = [[2, 0], [2, 4]] ! 0 ! 1
     \<and> fst (move_up [[2, 0], [2, 4]]) ! 0 ! 1
       = fst (compress (map (\<lambda>row. row ! 1) [[2, 0], [2, 4]])) ! 0"
    using all lt by blast
  show ?thesis
    using h up down cells transpose_example move_right_example_1 by blast
qed

text \<open>
  Claim C10. On a square board of dimension \<open>n\<close>, each of the four movers returns a
  square board of dimension \<open>n\<close>, and so do \<^verbatim>\<open>transpose\<close> and \<^verbatim>\<open>reverse_rows\<close>.
\<close>

theorem moves_preserve_shape:
  assumes "square n board"
  shows "square n (fst (move_left board)) \<and> square n (fst (move_right board))
         \<and> square n (fst (move_up board)) \<and> square n (fst (move_down board))
         \<and> square n (transpose_board board) \<and> square n (reverse_rows board)"
  using assms
  by (simp add: square_move_left square_move_right square_move_up square_move_down
      square_transpose square_reverse_rows)

theorem moves_preserve_shape_witness:
  "square 2 [[2, 2], [4, 0]]
   \<and> square 2 (fst (move_left [[2, 2], [4, 0]])) \<and> square 2 (fst (move_right [[2, 2], [4, 0]]))
   \<and> square 2 (fst (move_up [[2, 2], [4, 0]])) \<and> square 2 (fst (move_down [[2, 2], [4, 0]]))
   \<and> square 2 (transpose_board [[2, 2], [4, 0]]) \<and> square 2 (reverse_rows [[2, 2], [4, 0]])"
  using square_example moves_preserve_shape[OF square_example] by simp

subsection \<open>Concrete boards\<close>

lemma compress_zero_row: "compress [0, 0] = ([0, 0], 0)"
  by (simp add: compress_def compress_run_def merge_loop.simps)

lemma transpose_zero_board: "transpose_board [[0, 0], [0, 0]] = [[0, 0], [0, 0]]"
  by (simp add: transpose_board_def upt_rec)

lemma move_left_zero_board: "move_left [[0, 0], [0, 0]] = ([[0, 0], [0, 0]], 0)"
  by (simp add: move_left_def compress_zero_row)

lemma move_right_zero_board: "move_right [[0, 0], [0, 0]] = ([[0, 0], [0, 0]], 0)"
  by (simp add: move_right_def reverse_rows_def move_left_zero_board)

text \<open>
  The all-zero board: \<^verbatim>\<open>can_move\<close> is true (there are empty cells), and no mover
  changes the board.
\<close>

theorem can_move_all_zero_counterexample:
  "square 2 [[0, 0], [0, 0]]
   \<and> can_move [[0, 0], [0, 0]] = Inr True
   \<and> fst (move_up [[0, 0], [0, 0]]) = [[0, 0], [0, 0]]
   \<and> fst (move_down [[0, 0], [0, 0]]) = [[0, 0], [0, 0]]
   \<and> fst (move_left [[0, 0], [0, 0]]) = [[0, 0], [0, 0]]
   \<and> fst (move_right [[0, 0], [0, 0]]) = [[0, 0], [0, 0]]"
proof -
  have "get_empty_cells [[0, 0], [0, 0]] = Inr [(0, 0), (0, 1), (1, 0), (1, 1)]"
    by (simp add: get_empty_cells_def upt_rec)
  then have "can_move [[0, 0], [0, 0]] = Inr True" by (simp add: can_move_def)
  then show ?thesis
    by (simp add: square_def move_up_def move_down_def transpose_zero_board
        move_left_zero_board move_right_zero_board)
qed

theorem can_move_iff_some_move_changes_witness:
  "square 2 [[2, 2], [4, 0]]
   \<and> (\<exists>row \<in> set [[2, 2], [4, 0 :: int]]. \<exists>x \<in> set row. x \<noteq> 0)
   \<and> can_move [[2, 2], [4, 0]] =
       Inr (fst (move_up [[2, 2], [4, 0]]) \<noteq> [[2, 2], [4, 0]]
            \<or> fst (move_down [[2, 2], [4, 0]]) \<noteq> [[2, 2], [4, 0]]
            \<or> fst (move_left [[2, 2], [4, 0]]) \<noteq> [[2, 2], [4, 0]]
            \<or> fst (move_right [[2, 2], [4, 0]]) \<noteq> [[2, 2], [4, 0]])"
proof -
  have t: "\<exists>row \<in> set [[2, 2], [4, 0 :: int]]. \<exists>x \<in> set row. x \<noteq> 0" by simp
  show ?thesis
    using square_example t can_move_iff_some_move_changes[OF square_example t] by blast
qed

section \<open>Random tiles and the session\<close>

lemma create_board_replicate: "create_board sz = replicate (nat sz) (replicate (nat sz) 0)"
  by (simp add: create_board_def map_replicate_const)

lemma create_board_square: "square (nat sz) (create_board sz)"
  by (simp add: create_board_replicate square_def)

lemma empty_cells_set:
  "set [(i, j). i \<leftarrow> [0..<n], j \<leftarrow> [0..<m], (b::board) ! i ! j = 0]
     = {(i, j). i < n \<and> j < m \<and> b ! i ! j = 0}"
  by auto

lemma square_update:
  assumes "square n b" and "i < n"
  shows "square n (b[i := (b ! i)[j := v]])"
proof -
  have "b ! i \<in> set b" using assms by (simp add: square_def)
  then have "length ((b ! i)[j := v]) = n" using assms by (simp add: square_def)
  then show ?thesis using assms
    by (auto simp: square_def dest!: set_update_subset_insert[THEN subsetD])
qed

lemma add_random_tile_cases:
  assumes sq: "square n board"
  shows "(\<not> (\<exists>row \<in> set board. 0 \<in> set row) \<and> add_random_tile board d = Inr board)
         \<or> (\<exists>i < n. \<exists>j < n. board ! i ! j = 0 \<and>
               add_random_tile board d =
                 Inr (board[i := (board ! i)[j := (if low d then 2 else 4)]]))"
proof -
  let ?L = "[(i, j). i \<leftarrow> [0..<n], j \<leftarrow> [0..<n], board ! i ! j = 0]"
  have ge: "get_empty_cells board = Inr ?L" by (rule get_empty_cells_square[OF sq])
  have z: "(\<exists>row \<in> set board. 0 \<in> set row) \<longleftrightarrow> (\<exists>i < n. \<exists>j < n. board ! i ! j = 0)"
    using square_cell_iff[OF sq, of "\<lambda>x. x = 0"] by auto
  show ?thesis
  proof (cases "?L = []")
    case True
    then have "\<not> (\<exists>row \<in> set board. 0 \<in> set row)"
      using empty_cells_nonempty[where b = board and n = n and m = n] z by simp
    moreover have "add_random_tile board d = Inr board"
      unfolding add_random_tile_def ge using True by simp
    ultimately show ?thesis by simp
  next
    case False
    let ?p = "?L ! (pick d mod length ?L)"
    have "pick d mod length ?L < length ?L" using False by simp
    then have "?p \<in> set ?L" by (rule nth_mem)
    then have "?p \<in> {(i, j). i < n \<and> j < n \<and> board ! i ! j = 0}"
      unfolding empty_cells_set .
    then obtain i j where p: "?p = (i, j)" and ij: "i < n" "j < n" "board ! i ! j = 0"
      by auto
    have "add_random_tile board d =
            Inr (board[i := (board ! i)[j := (if low d then 2 else 4)]])"
      unfolding add_random_tile_def ge using False p by simp
    then show ?thesis using ij by blast
  qed
qed

lemma add_random_tile_square:
  assumes "square n board"
  shows "\<exists>b. add_random_tile board d = Inr b \<and> square n b"
  using add_random_tile_cases[OF assms, of d] assms square_update[OF assms] by auto

lemma initialize_game_total:
  "\<exists>b. initialize_game sz d1 d2 = Inr b \<and> square (nat sz) b"
proof -
  obtain b1 where b1: "add_random_tile (create_board sz) d1 = Inr b1" "square (nat sz) b1"
    using add_random_tile_square[OF create_board_square] by blast
  obtain b2 where "add_random_tile b1 d2 = Inr b2" "square (nat sz) b2"
    using add_random_tile_square[OF b1(2)] by blast
  then show ?thesis using b1 by (simp add: initialize_game_def)
qed

lemma update_ui_square:
  assumes "square (nat (self_size g)) (self_board g)"
  shows "update_ui g = Inr ()"
proof -
  let ?n = "nat (self_size g)"
  have lb: "length (self_board g) = ?n" using assms by (simp add: square_def)
  have "\<And>i. i < ?n \<Longrightarrow> length (self_board g ! i) = ?n"
  proof -
    fix i assume "i < ?n"
    then have "self_board g ! i \<in> set (self_board g)" using lb by simp
    then show "length (self_board g ! i) = ?n" using assms by (simp add: square_def)
  qed
  then show ?thesis using lb by (simp add: update_ui_def)
qed

lemma restart_game_total:
  "\<exists>b. square (nat (self_size g)) b \<and>
       restart_game g ds = Inr (g\<lparr>self_board := b, self_score := 0, self_game_won := False\<rparr>)"
proof -
  obtain b where b: "initialize_game (self_size g) (fst ds) (snd ds) = Inr b"
    "square (nat (self_size g)) b"
    using initialize_game_total by blast
  let ?g1 = "g\<lparr>self_board := b, self_score := 0, self_game_won := False\<rparr>"
  have "update_ui ?g1 = Inr ()" using b(2) by (intro update_ui_square) simp
  then have "restart_game g ds = Inr ?g1" using b(1) by (simp add: restart_game_def)
  then show ?thesis using b(2) by blast
qed

lemma restart_game_flag: "restart_game g ds = Inr g1 \<Longrightarrow> \<not> self_game_won g1"
  by (auto simp: restart_game_def Let_def split: sum.splits)

text \<open>
  Claim C8. On a square board, for every draw, \<^verbatim>\<open>add_random_tile\<close> returns a board
  of the same shape and does not raise. If the input has an empty cell, one cell that
  was 0 holds 2 or 4 in the result and every other cell is unchanged; if it has none,
  the result is the input.
\<close>

theorem add_random_tile_frame:
  assumes "square n board"
  shows "\<exists>b. add_random_tile board d = Inr b \<and> square n b \<and>
           (if \<exists>row \<in> set board. 0 \<in> set row
            then \<exists>i < n. \<exists>j < n. board ! i ! j = 0 \<and> (b ! i ! j = 2 \<or> b ! i ! j = 4) \<and>
                   (\<forall>i' < n. \<forall>j' < n. (i', j') \<noteq> (i, j) \<longrightarrow> b ! i' ! j' = board ! i' ! j')
            else b = board)"
proof -
  have z: "(\<exists>row \<in> set board. 0 \<in> set row) \<longleftrightarrow> (\<exists>i < n. \<exists>j < n. board ! i ! j = 0)"
    using square_cell_iff[OF assms, of "\<lambda>x. x = 0"] by auto
  from add_random_tile_cases[OF assms, of d] show ?thesis
  proof
    assume "\<not> (\<exists>row \<in> set board. 0 \<in> set row) \<and> add_random_tile board d = Inr board"
    then show ?thesis using assms by simp
  next
    assume "\<exists>i < n. \<exists>j < n. board ! i ! j = 0 \<and>
              add_random_tile board d =
                Inr (board[i := (board ! i)[j := (if low d then 2 else 4)]])"
    then obtain i j where ij: "i < n" "j < n" "board ! i ! j = 0"
      and r: "add_random_tile board d =
                Inr (board[i := (board ! i)[j := (if low d then 2 else 4)]])"
      by blast
    let ?v = "if low d then 2 else 4 :: int"
    let ?b = "board[i := (board ! i)[j := ?v]]"
    have lb: "length board = n" using assms by (simp add: square_def)
    have "board ! i \<in> set board" using ij lb by simp
    then have li: "length (board ! i) = n" using assms by (simp add: square_def)
    have cell: "?b ! i ! j = 2 \<or> ?b ! i ! j = 4" using ij lb li by simp
    have other: "\<forall>i' < n. \<forall>j' < n. (i', j') \<noteq> (i, j) \<longrightarrow> ?b ! i' ! j' = board ! i' ! j'"
    proof (intro allI impI)
      fix i' j' assume "i' < n" "j' < n" and ne: "(i', j') \<noteq> (i, j)"
      show "?b ! i' ! j' = board ! i' ! j'"
      proof (cases "i' = i")
        case True
        then have "j' \<noteq> j" using ne by simp
        then show ?thesis using True ij lb by simp
      next
        case False
        then show ?thesis by simp
      qed
    qed
    have zero: "\<exists>row \<in> set board. 0 \<in> set row" using z ij by blast
    have "\<exists>i < n. \<exists>j < n. board ! i ! j = 0 \<and> (?b ! i ! j = 2 \<or> ?b ! i ! j = 4) \<and>
             (\<forall>i' < n. \<forall>j' < n. (i', j') \<noteq> (i, j) \<longrightarrow> ?b ! i' ! j' = board ! i' ! j')"
      using ij cell other by blast
    then show ?thesis
      using r zero square_update[OF assms ij(1), of j ?v] by simp
  qed
qed

lemma add_tile_example:
  "add_random_tile [[2, 0], [4, 8]] \<lparr>pick = 0, low = True\<rparr> = Inr [[2, 2], [4, 8]]"
  by (simp add: add_random_tile_def get_empty_cells_def upt_rec)

lemma add_tile_full_example:
  "add_random_tile [[2, 4], [4, 8]] \<lparr>pick = 0, low = True\<rparr> = Inr [[2, 4], [4, 8]]"
  by (simp add: add_random_tile_def get_empty_cells_def upt_rec)

theorem add_random_tile_frame_witness:
  "square 2 [[2, 0], [4, 8]]
   \<and> add_random_tile [[2, 0], [4, 8]] \<lparr>pick = 0, low = True\<rparr> = Inr [[2, 2], [4, 8]]
   \<and> square 2 [[2, 2], [4, 8]]"
proof -
  have h: "square 2 [[2, 0], [4, 8]]" by (simp add: square_def)
  show ?thesis
    using h add_tile_example add_random_tile_frame[OF h, of "\<lparr>pick = 0, low = True\<rparr>"]
    by auto
qed

text \<open>
  Claim C9, as amended. \<^verbatim>\<open>create_board\<close> never fails: for every size it returns a
  square all-zero grid of dimension \<open>max(size, 0)\<close>, also for sizes below 2; for sizes
  of at least 2 this is the grid the specification describes.
\<close>

theorem create_board_every_size:
  "square (nat sz) (create_board sz)
   \<and> (\<forall>row \<in> set (create_board sz). \<forall>x \<in> set row. x = 0)
   \<and> (2 \<le> sz \<longrightarrow> createEmptyBoard_spec sz = Inr (create_board sz))"
  using create_board_square[of sz]
  by (auto simp: create_board_replicate createEmptyBoard_spec_def)

theorem create_board_every_size_witness:
  "create_board 3 = [[0, 0, 0], [0, 0, 0], [0, 0, 0]]
   \<and> square (nat 3) (create_board 3)
   \<and> createEmptyBoard_spec 3 = Inr (create_board 3)"
proof -
  have "create_board 3 = [[0, 0, 0], [0, 0, 0], [0, 0, 0]]"
    by (simp add: create_board_def upt_rec)
  then show ?thesis using create_board_every_size[of 3] by simp
qed

text \<open>
  Sizes 1 and 0: the specification's constructor fails, the source's returns a grid.
\<close>

theorem create_board_small_size_counterexample:
  "createEmptyBoard_spec 1 = Inl InvalidSizeError \<and> create_board 1 = [[0]]
   \<and> createEmptyBoard_spec 0 = Inl InvalidSizeError \<and> create_board 0 = []"
  by (simp add: createEmptyBoard_spec_def create_board_def)

lemma make_move_rejected:
  assumes "fst (move_function (self_board g)) = self_board g"
  shows "make_move g move_function inp = Inr (g, Rejected)"
  using assms by (cases "move_function (self_board g)") (simp add: make_move_def boards_equal_def)

text \<open>
  Claim C6. When the mover returns a board equal to the current one, \<^verbatim>\<open>make_move\<close>
  returns the session unchanged (board, score, win flag; no tile is added) whatever
  the inputs, and a second such call from there again leaves the same state.
\<close>

theorem rejected_move_is_atomic:
  assumes "fst (move_function (self_board g)) = self_board g"
  shows "make_move g move_function inp = Inr (g, Rejected)
         \<and> (case make_move g move_function inp of
               Inl e \<Rightarrow> Inl e
             | Inr (g1, out) \<Rightarrow> make_move g1 move_function inp2) = Inr (g, Rejected)"
  using assms make_move_rejected[where move_function = move_function and g = g] by simp

lemma move_left_flush: "move_left [[2, 0], [4, 0]] = ([[2, 0], [4, 0]], 0)"
  by (simp add: move_left_def compress_def compress_run_def merge_loop.simps)

theorem rejected_move_is_atomic_witness:
  "fst (move_left [[2, 0], [4, 0]]) = [[2, 0], [4, 0]]
   \<and> make_move \<lparr>self_size = 2, self_board = [[2, 0], [4, 0]], self_score = 12,
                  self_game_won = False\<rparr>
        move_left
        \<lparr>tile = \<lparr>pick = 0, low = True\<rparr>, response = True,
         restart_tiles = (\<lparr>pick = 0, low = True\<rparr>, \<lparr>pick = 0, low = True\<rparr>)\<rparr>
       = Inr (\<lparr>self_size = 2, self_board = [[2, 0], [4, 0]], self_score = 12,
                self_game_won = False\<rparr>, Rejected)"
proof -
  let ?g = "\<lparr>self_size = 2, self_board = [[2, 0], [4, 0]], self_score = 12,
             self_game_won = False\<rparr>"
  have h: "fst (move_left (self_board ?g)) = self_board ?g" by (simp add: move_left_flush)
  show ?thesis
    using h rejected_move_is_atomic[where move_function = move_left and g = ?g]
    by (simp add: move_left_flush)
qed

lemma has_won_cells:
  "has_won board target \<longleftrightarrow> (\<exists>i < length board. \<exists>j < length (board ! i). board ! i ! j = target)"
  unfolding has_won_def by (metis in_set_conv_nth)

lemma square_mover:
  assumes "square n b"
    and "mf = move_up \<or> mf = move_down \<or> mf = move_left \<or> mf = move_right"
  shows "square n (fst (mf b))"
  using assms square_move_up square_move_down square_move_left square_move_right by blast

lemma square_zero: "square 0 b \<Longrightarrow> b = []"
  by (simp add: square_def)

lemma make_move_first_win:
  assumes wf: "square (nat (self_size g)) (self_board g)"
    and mv: "mf = move_up \<or> mf = move_down \<or> mf = move_left \<or> mf = move_right"
    and acc: "fst (mf (self_board g)) \<noteq> self_board g"
    and tile: "add_random_tile (fst (mf (self_board g))) (tile inp) = Inr b"
    and tgt: "has_won b 2048"
    and flag: "\<not> self_game_won g"
  shows "\<exists>g1. make_move g mf inp = Inr (g1, Won) \<and>
           (response inp \<longrightarrow>
              g1 = g\<lparr>self_board := b, self_score := self_score g + snd (mf (self_board g)),
                     self_game_won := True\<rparr>)"
proof -
  let ?g1 = "g\<lparr>self_board := b, self_score := self_score g + snd (mf (self_board g))\<rparr>"
  let ?g2 = "?g1\<lparr>self_game_won := True\<rparr>"
  have "square (nat (self_size g)) b"
    using add_random_tile_square[OF square_mover[OF wf mv], of "tile inp"] tile by auto
  then have ui: "update_ui ?g1 = Inr ()" by (intro update_ui_square) simp
  show ?thesis
  proof (cases "response inp")
    case True
    then show ?thesis using acc tile tgt flag ui
      by (cases "mf (self_board g)") (simp add: make_move_def boards_equal_def Let_def)
  next
    case False
    obtain bb where "restart_game ?g2 (restart_tiles inp) =
        Inr (?g2\<lparr>self_board := bb, self_score := 0, self_game_won := False\<rparr>)"
      using restart_game_total[of ?g2 "restart_tiles inp"] by blast
    then show ?thesis using acc tile tgt flag ui False
      by (cases "mf (self_board g)") (simp add: make_move_def boards_equal_def Let_def)
  qed
qed

lemma make_move_total:
  assumes wf: "square (nat (self_size g)) (self_board g)"
    and mv: "mf = move_up \<or> mf = move_down \<or> mf = move_left \<or> mf = move_right"
  shows "\<exists>g1 out. make_move g mf inp = Inr (g1, out) \<and> self_size g1 = self_size g \<and>
           square (nat (self_size g1)) (self_board g1)"
proof (cases "fst (mf (self_board g)) = self_board g")
  case True
  then have "make_move g mf inp = Inr (g, Rejected)"
    by (cases "mf (self_board g)") (simp add: make_move_def boards_equal_def)
  then show ?thesis using wf by simp
next
  case False
  let ?n = "nat (self_size g)"
  let ?nb = "fst (mf (self_board g))"
  let ?sc = "snd (mf (self_board g))"
  have sqnb: "square ?n ?nb" by (rule square_mover[OF wf mv])
  obtain b where b: "add_random_tile ?nb (tile inp) = Inr b" and sqb: "square ?n b"
    using add_random_tile_square[OF sqnb] by blast
  let ?g1 = "g\<lparr>self_board := b, self_score := self_score g + ?sc\<rparr>"
  let ?g2 = "?g1\<lparr>self_game_won := True\<rparr>"
  have ui: "update_ui ?g1 = Inr ()" using sqb by (intro update_ui_square) simp
  have "?n \<noteq> 0"
  proof
    assume "?n = 0"
    then have "?nb = []" "self_board g = []" using sqnb wf square_zero by simp_all
    then show False using False by simp
  qed
  then have "b \<noteq> []" using sqb by (auto simp: square_def)
  then obtain c where go: "game_over b = Inr c"
    using can_move_square[OF sqb] by (simp add: game_over_def)
  obtain b1 where r1: "square ?n b1"
    "restart_game ?g1 (restart_tiles inp) =
       Inr (?g1\<lparr>self_board := b1, self_score := 0, self_game_won := False\<rparr>)"
    using restart_game_total[of ?g1 "restart_tiles inp"] by auto
  obtain b2 where r2: "square ?n b2"
    "restart_game ?g2 (restart_tiles inp) =
       Inr (?g2\<lparr>self_board := b2, self_score := 0, self_game_won := False\<rparr>)"
    using restart_game_total[of ?g2 "restart_tiles inp"] by auto
  have mm: "make_move g mf inp =
      (if \<not> self_game_won g \<and> has_won b 2048 then
         (if \<not> response inp
          then Inr (?g2\<lparr>self_board := b2, self_score := 0, self_game_won := False\<rparr>, Won)
          else Inr (?g2, Won))
       else if c then
         (if response inp
          then Inr (?g1\<lparr>self_board := b1, self_score := 0, self_game_won := False\<rparr>, Over)
          else Inr (?g1, Over))
       else Inr (?g1, Continue))"
    using False b ui go r1(2) r2(2)
    by (cases "mf (self_board g)") (simp add: make_move_def boards_equal_def Let_def)
  show ?thesis unfolding mm using sqb r1(1) r2(1) by simp
qed

lemma make_move_flag_kept:
  assumes "self_game_won g" and "make_move g mf inp = Inr (g1, out)"
  shows "out \<noteq> Won \<and> (self_game_won g1 \<or> restarted out inp)"
proof (cases "mf (self_board g)")
  case (Pair nb sc)
  show ?thesis
  proof (cases "nb = self_board g")
    case True
    then show ?thesis using assms Pair by (simp add: make_move_def boards_equal_def)
  next
    case False
    then show ?thesis using assms Pair
      by (auto simp: make_move_def boards_equal_def Let_def restarted_def
          split: sum.splits if_splits bool.splits)
  qed
qed

lemma make_move_win_sets_flag:
  assumes "make_move g mf inp = Inr (g1, Won)" and "\<not> restarted Won inp"
  shows "self_game_won g1"
proof (cases "mf (self_board g)")
  case (Pair nb sc)
  show ?thesis
  proof (cases "nb = self_board g")
    case True
    then show ?thesis using assms Pair by (simp add: make_move_def boards_equal_def)
  next
    case False
    then show ?thesis using assms Pair
      by (auto simp: make_move_def boards_equal_def Let_def restarted_def
          split: sum.splits if_splits bool.splits)
  qed
qed

lemma play_won_once:
  "play g steps = Inr (g2, outs) \<Longrightarrow>
   \<forall>k < length steps. \<not> restarted (outs ! k) (snd (steps ! k)) \<Longrightarrow>
   count_list outs Won \<le> 1 \<and> (self_game_won g \<longrightarrow> count_list outs Won = 0)"
proof (induction steps arbitrary: g g2 outs)
  case Nil
  then show ?case by auto
next
  case (Cons step steps)
  from Cons.prems(1) obtain g1 out outs1 where
    mm: "make_move g (fst step) (snd step) = Inr (g1, out)"
    and pl: "play g1 steps = Inr (g2, outs1)" and outs: "outs = out # outs1"
    by (auto split: sum.splits prod.splits)
  have nr0: "\<not> restarted out (snd step)" using Cons.prems(2) outs by auto
  have nr: "\<forall>k < length steps. \<not> restarted (outs1 ! k) (snd (steps ! k))"
  proof (intro allI impI)
    fix k assume "k < length steps"
    then have "\<not> restarted (outs ! Suc k) (snd ((step # steps) ! Suc k))"
      using Cons.prems(2) by (metis Suc_less_eq length_Cons)
    then show "\<not> restarted (outs1 ! k) (snd (steps ! k))" using outs by simp
  qed
  note IH = Cons.IH[OF pl nr]
  show ?case
  proof (cases "self_game_won g")
    case True
    then have "out \<noteq> Won" "self_game_won g1"
      using make_move_flag_kept[OF True mm] nr0 by auto
    then show ?thesis using IH outs by simp
  next
    case False
    show ?thesis
    proof (cases "out = Won")
      case True
      then have "self_game_won g1" using make_move_win_sets_flag mm nr0 by blast
      then show ?thesis using IH outs True False by simp
    next
      case ne: False
      then show ?thesis using IH outs False by simp
    qed
  qed
qed

lemma play_total:
  "square (nat (self_size g)) (self_board g) \<Longrightarrow>
   \<forall>step \<in> set steps. fst step = move_up \<or> fst step = move_down
       \<or> fst step = move_left \<or> fst step = move_right \<Longrightarrow>
   \<exists>g1 outs. play g steps = Inr (g1, outs)"
proof (induction steps arbitrary: g)
  case Nil
  then show ?case by simp
next
  case (Cons step steps)
  have mv: "fst step = move_up \<or> fst step = move_down
       \<or> fst step = move_left \<or> fst step = move_right"
    using Cons.prems(2) by simp
  obtain g1 out where mm: "make_move g (fst step) (snd step) = Inr (g1, out)"
    and wf1: "square (nat (self_size g1)) (self_board g1)"
    using make_move_total[OF Cons.prems(1) mv, of "snd step"] by blast
  have "\<forall>step \<in> set steps. fst step = move_up \<or> fst step = move_down
       \<or> fst step = move_left \<or> fst step = move_right"
    using Cons.prems(2) by simp
  then obtain g2 outs where "play g1 steps = Inr (g2, outs)"
    using Cons.IH[OF wf1] by blast
  then show ?case using mm by simp
qed

text \<open>
  Claim C7. \<^verbatim>\<open>has_won\<close> is true iff some cell equals the target. In a session whose
  board is square of dimension \<^verbatim>\<open>self.size\<close>, on an accepted move of one of the four
  movers whose board after the new tile contains 2048 while the flag is unset, the win
  dialog is shown, and the flag is set in the state the move leaves when the player
  continues. With the flag set, no move shows the win dialog, and the flag stays set
  unless the move restarted the game; \<^verbatim>\<open>restart_game\<close> clears the flag. In a sequence
  of moves none of which restarts, the win dialog is shown at most once; and from a
  session whose board is square of dimension \<^verbatim>\<open>self.size\<close>, every sequence of the
  four movers runs without raising.
\<close>

theorem win_flag_sticky:
  "(has_won board target \<longleftrightarrow>
      (\<exists>i < length board. \<exists>j < length (board ! i). board ! i ! j = target))
   \<and> (square (nat (self_size g)) (self_board g)
        \<and> (mf = move_up \<or> mf = move_down \<or> mf = move_left \<or> mf = move_right)
        \<and> fst (mf (self_board g)) \<noteq> self_board g
        \<and> add_random_tile (fst (mf (self_board g))) (tile inp) = Inr b
        \<and> has_won b 2048 \<and> \<not> self_game_won g
      \<longrightarrow> (\<exists>g1. make_move g mf inp = Inr (g1, Won) \<and>
             (response inp \<longrightarrow>
                g1 = g\<lparr>self_board := b, self_score := self_score g + snd (mf (self_board g)),
                       self_game_won := True\<rparr>)))
   \<and> (self_game_won g \<and> make_move g mf inp = Inr (g2, out)
      \<longrightarrow> out \<noteq> Won \<and> (self_game_won g2 \<or> restarted out inp))
   \<and> (restart_game g ds = Inr g3 \<longrightarrow> \<not> self_game_won g3)
   \<and> (play g steps = Inr (g4, outs)
        \<and> (\<forall>k < length steps. \<not> restarted (outs ! k) (snd (steps ! k)))
      \<longrightarrow> count_list outs Won \<le> 1)
   \<and> (square (nat (self_size g)) (self_board g)
        \<and> (\<forall>step \<in> set steps. fst step = move_up \<or> fst step = move_down
               \<or> fst step = move_left \<or> fst step = move_right)
      \<longrightarrow> (\<exists>g5 outs5. play g steps = Inr (g5, outs5)))"
proof (intro conjI impI)
  show "has_won board target \<longleftrightarrow>
      (\<exists>i < length board. \<exists>j < length (board ! i). board ! i ! j = target)"
    by (rule has_won_cells)
next
  assume "square (nat (self_size g)) (self_board g)
        \<and> (mf = move_up \<or> mf = move_down \<or> mf = move_left \<or> mf = move_right)
        \<and> fst (mf (self_board g)) \<noteq> self_board g
        \<and> add_random_tile (fst (mf (self_board g))) (tile inp) = Inr b
        \<and> has_won b 2048 \<and> \<not> self_game_won g"
  then show "\<exists>g1. make_move g mf inp = Inr (g1, Won) \<and>
             (response inp \<longrightarrow>
                g1 = g\<lparr>self_board := b, self_score := self_score g + snd (mf (self_board g)),
                       self_game_won := True\<rparr>)"
    using make_move_first_win[of g mf inp b] by blast
next
  assume a: "self_game_won g \<and> make_move g mf inp = Inr (g2, out)"
  then show "out \<noteq> Won" using make_move_flag_kept by blast
  from a show "self_game_won g2 \<or> restarted out inp" using make_move_flag_kept by blast
next
  assume "restart_game g ds = Inr g3"
  then show "\<not> self_game_won g3" by (rule restart_game_flag)
next
  assume "play g steps = Inr (g4, outs)
        \<and> (\<forall>k < length steps. \<not> restarted (outs ! k) (snd (steps ! k)))"
  then show "count_list outs Won \<le> 1" using play_won_once by blast
next
  assume "square (nat (self_size g)) (self_board g)
        \<and> (\<forall>step \<in> set steps. fst step = move_up \<or> fst step = move_down
               \<or> fst step = move_left \<or> fst step = move_right)"
  then show "\<exists>g5 outs5. play g steps = Inr (g5, outs5)" using play_total by blast
qed

lemma move_left_win_example: "move_left [[1024, 1024], [0, 0]] = ([[2048, 0], [0, 0]], 2048)"
  by (simp add: move_left_def compress_def compress_run_def merge_loop.simps)

lemma add_tile_win_example:
  "add_random_tile [[2048, 0], [0, 0]] \<lparr>pick = 0, low = True\<rparr> = Inr [[2048, 2], [0, 0]]"
  by (simp add: add_random_tile_def get_empty_cells_def upt_rec)

theorem win_flag_sticky_witness:
  "make_move \<lparr>self_size = 2, self_board = [[1024, 1024], [0, 0]], self_score = 0,
               self_game_won = False\<rparr>
     move_left
     \<lparr>tile = \<lparr>pick = 0, low = True\<rparr>, response = True,
      restart_tiles = (\<lparr>pick = 0, low = True\<rparr>, \<lparr>pick = 0, low = True\<rparr>)\<rparr>
   = Inr (\<lparr>self_size = 2, self_board = [[2048, 2], [0, 0]], self_score = 2048,
            self_game_won = True\<rparr>, Won)"
proof -
  let ?g = "\<lparr>self_size = 2, self_board = [[1024, 1024], [0, 0]], self_score = 0,
             self_game_won = False\<rparr>"
  let ?inp = "\<lparr>tile = \<lparr>pick = 0, low = True\<rparr>, response = True,
      restart_tiles = (\<lparr>pick = 0, low = True\<rparr>, \<lparr>pick = 0, low = True\<rparr>)\<rparr>"
  have h1: "fst (move_left (self_board ?g)) \<noteq> self_board ?g"
    by (simp add: move_left_win_example)
  have h2: "add_random_tile (fst (move_left (self_board ?g))) (tile ?inp) = Inr [[2048, 2], [0, 0]]"
    by (simp add: move_left_win_example add_tile_win_example)
  have h3: "has_won [[2048, 2], [0, 0]] 2048" by (simp add: has_won_def)
  have h4: "\<not> self_game_won ?g" by simp
  have h5: "square (nat (self_size ?g)) (self_board ?g)" by (simp add: square_def)
  have "\<exists>g1. make_move ?g move_left ?inp = Inr (g1, Won) \<and>
             (response ?inp \<longrightarrow>
                g1 = ?g\<lparr>self_board := [[2048, 2], [0, 0]],
                        self_score := self_score ?g + snd (move_left (self_board ?g)),
                        self_game_won := True\<rparr>)"
    using h1 h2 h3 h4 h5
      win_flag_sticky[where g = ?g and mf = move_left and inp = ?inp
        and b = "[[2048, 2], [0, 0]]"]
    by blast
  then show ?thesis by (auto simp: move_left_win_example)
qed

end
